theory Spec2Isabelle
  imports Main "HOL-Library.Sublist"
begin

text \<open>
  A shallow embedding of markdown-toc: the slugifier of \<open>utils.ts\<close>, the heading
  extractor and renderer of the class \<open>MarkedAdapter\<close>, and \<open>insert\<close> of \<open>insert.ts\<close>, each
  definition following the source function of its name. The tokenizer, the
  front-matter parser, the escape stripper and the diacritics table are dependencies
  of the program and parameters here.
\<close>

section \<open>Strings and regular expressions\<close>

text \<open>
  A JavaScript string is a sequence of UTF-16 code units; \<open>length\<close>, indexing, \<open>split\<close>,
  \<open>replace\<close> and the character classes of the regular expressions in the source all
  work on code units. A string is therefore a list of code units, each a natural number,
  and \<open>js ''abc''\<close> is the string with the code units of an ASCII literal.
\<close>

type_synonym jsstring = "nat list"

definition js :: "string \<Rightarrow> jsstring" where
  "js s = map of_char s"

text \<open>
  The class \<open>\s\<close> of a regular expression and the characters removed by
  \<open>String.prototype.trim\<close> are the same set: WhiteSpace and LineTerminator of ECMAScript.
\<close>

definition is_space :: "nat \<Rightarrow> bool" where
  "is_space c \<longleftrightarrow>
     c \<in> {0x9, 0xA, 0xB, 0xC, 0xD, 0x20, 0xA0, 0x1680, 0x2028, 0x2029, 0x202F, 0x205F,
          0x3000, 0xFEFF}
     \<or> (0x2000 \<le> c \<and> c \<le> 0x200A)"

definition trim :: "jsstring \<Rightarrow> jsstring" where
  "trim s = rev (dropWhile is_space (rev (dropWhile is_space s)))"

text \<open>
  A regular expression (none in the source has a look-behind or a capture that is used
  by \<open>split\<close> or \<open>replace\<close>) is represented by its match function: applied to the rest of
  the input from some position, it returns the length of the match that starts there, or
  \<open>None\<close>.
\<close>

type_synonym regex = "jsstring \<Rightarrow> nat option"

text \<open>
  \<open>str.replace(re, f)\<close> for a global \<open>re\<close>: matches are searched from left to right, each
  is replaced by \<open>f\<close> of the matched text, and after an empty match the search moves on
  by one code unit.
\<close>

fun replace_all :: "regex \<Rightarrow> (jsstring \<Rightarrow> jsstring) \<Rightarrow> jsstring \<Rightarrow> jsstring" where
  "replace_all re f [] = (case re [] of Some n \<Rightarrow> f [] | None \<Rightarrow> [])"
| "replace_all re f (c # cs) =
     (case re (c # cs) of
        None \<Rightarrow> c # replace_all re f cs
      | Some n \<Rightarrow>
          if n = 0 then f [] @ c # replace_all re f cs
          else f (take n (c # cs)) @ replace_all re f (drop n (c # cs)))"

text \<open>
  \<open>str.split(re)\<close>, the loop of the ECMAScript algorithm for a pattern without captures:
  \<open>acc\<close> is the text between the last split point and the position of the search. An
  empty match at the split point itself does not split.
\<close>

function split_loop :: "regex \<Rightarrow> jsstring \<Rightarrow> jsstring \<Rightarrow> jsstring list" where
  "split_loop re acc [] = [acc]"
| "split_loop re acc (c # cs) =
     (case re (c # cs) of
        None \<Rightarrow> split_loop re (acc @ [c]) cs
      | Some n \<Rightarrow>
          if n = 0 \<and> acc = [] then split_loop re [c] cs
          else acc # split_loop re [] (drop n (c # cs)))"
  by pat_completeness auto
termination
  by (relation "measures [\<lambda>(re, acc, s). length s, \<lambda>(re, acc, s). length acc]") auto

definition split_re :: "jsstring \<Rightarrow> regex \<Rightarrow> jsstring list" where
  "split_re s re =
     (if s = [] then (case re [] of Some n \<Rightarrow> [] | None \<Rightarrow> [[]])
      else split_loop re [] s)"

text \<open>The patterns of the source.\<close>

definition re_class :: "(nat \<Rightarrow> bool) \<Rightarrow> regex" where
  \<comment> \<open>a character class \<open>[...]\<close>: one code unit of the class\<close>
  "re_class P s = (case s of [] \<Rightarrow> None | c # _ \<Rightarrow> if P c then Some 1 else None)"

definition re_run :: "(nat \<Rightarrow> bool) \<Rightarrow> regex" where
  \<comment> \<open>a class under \<open>+\<close>: the longest non-empty run of code units of the class\<close>
  "re_run P s = (let n = length (takeWhile P s) in if n = 0 then None else Some n)"

definition re_tag :: regex where
  \<comment> \<open>\<open>/<\/?[^>]+>/\<close>: the optional slash is itself a code unit of \<open>[^>]\<close>, so with or
      without it the match is \<open><\<close>, the non-empty run up to the next \<open>>\<close>, and that \<open>>\<close>\<close>
  "re_tag s =
     (case s of
        [] \<Rightarrow> None
      | c # r \<Rightarrow>
          if c = 0x3C \<and> takeWhile (\<lambda>x. x \<noteq> 0x3E) r \<noteq> [] \<and> dropWhile (\<lambda>x. x \<noteq> 0x3E) r \<noteq> []
          then Some (length (takeWhile (\<lambda>x. x \<noteq> 0x3E) r) + 2)
          else None)"

definition punctuation :: "nat \<Rightarrow> bool" where
  \<comment> \<open>the class of \<open>utils.ts\<close> line 114; the last four are backquote, backslash, quote
      and double quote\<close>
  "punctuation c \<longleftrightarrow> c \<in> set (js ''|$&~=/@+*!?({[]})<>=.,;:^'' @ [0x60, 0x5C, 0x27, 0x22])"

definition cjk_punctuation :: "nat \<Rightarrow> bool" where
  \<comment> \<open>the class of \<open>utils.ts\<close> line 116, in the order of the source; it contains a space\<close>
  "cjk_punctuation c \<longleftrightarrow>
     c \<in> {0x3002, 0xFF1F, 0xFF01, 0xFF0C, 0x3001, 0xFF1B, 0xFF1A, 0x201C, 0x201D, 0x3010,
          0x3011, 0xFF08, 0xFF09, 0x3014, 0x3015, 0xFF3B, 0xFF3D, 0xFE43, 0xFE44, 0x201C,
          0x20, 0x201D, 0x2018, 0x2019, 0xFE41, 0xFE42, 0x2014, 0x2026, 0xFF0D, 0xFF5E,
          0x300A, 0x300B, 0x3008, 0x3009, 0x300C, 0x300D}"

definition re_marker :: regex where
  \<comment> \<open>\<open>/(?:<!-- toc(?:\s*stop)? -->)/\<close>: after \<open><!-- toc\<close> the optional group takes
      the longest run of white space and \<open>stop\<close> (a shorter run cannot be followed by
      \<open>stop\<close>); if the group or the \<open> -->\<close> after it fails, the group is skipped\<close>
  "re_marker s =
     (if prefix (js ''<!-- toc'') s then
        (let r = drop 8 s; r' = dropWhile is_space r in
         if prefix (js ''stop'') r' \<and> prefix (js '' -->'') (drop 4 r')
         then Some (8 + (length r - length r') + 8)
         else if prefix (js '' -->'') r then Some 12 else None)
      else None)"

fun show_nat :: "nat \<Rightarrow> jsstring" where
  "show_nat n = (if n < 10 then [48 + n] else show_nat (n div 10) @ [48 + n mod 10])"

declare show_nat.simps [simp del]

definition show_int :: "int \<Rightarrow> jsstring" where
  \<comment> \<open>the decimal text of an integer, as a template literal prints a number that is an
      integer below \<open>10^21\<close> in absolute value\<close>
  "show_int n = (if n < 0 then js ''-'' @ show_nat (nat (- n)) else show_nat (nat n))"

section \<open>Data model\<close>

text \<open>
  The tokens of the marked tokenizer, by the interfaces the source casts them to
  (\<open>Tokens.Heading\<close>, \<open>Tokens.Text\<close>, \<open>Tokens.Link\<close>, ...). The source tests
  \<open>token.tokens\<close> and \<open>token.text\<close> for presence before it uses them, so the child list
  is optional everywhere and a token of any other type has an optional text as well.
\<close>

datatype token =
    Heading int jsstring "token list option"  \<comment> \<open>depth, text, tokens\<close>
  | Text jsstring "token list option"  \<comment> \<open>text, tokens\<close>
  | Link jsstring jsstring "token list option"  \<comment> \<open>href, text, tokens\<close>
  | Strong jsstring "token list option"  \<comment> \<open>text, tokens\<close>
  | Em jsstring "token list option"  \<comment> \<open>text, tokens\<close>
  | Codespan jsstring  \<comment> \<open>text\<close>
  | Image jsstring jsstring  \<comment> \<open>href, text\<close>
  | Other "jsstring option" "token list option"  \<comment> \<open>any other type: text, tokens\<close>

text \<open>
  A value read from the \<open>seen\<close> table of the adapter or stored in the \<open>seen\<close> field of a
  heading. The table is a plain object, so a key that \<open>Object.prototype\<close> defines reads as
  the inherited function or object (\<open>Inherited\<close>) until an own property hides it, and
  incrementing such a value gives \<open>NaN\<close>.
\<close>

datatype seen_value = Undefined | Num nat | NaN | Inherited

text \<open>
  \<open>HeadingToken\<close>. The field \<open>i\<close> of the source is \<open>idx\<close> here; the specification calls
  \<open>lvl\<close>, \<open>i\<close> and \<open>seen\<close> level, index and duplicateOrdinal.
\<close>

record heading =
  content :: jsstring
  slug :: jsstring
  lvl :: int
  idx :: nat
  seen :: seen_value

text \<open>
  \<open>TOCOptions\<close>, with the keys that \<open>insert\<close> reads in addition (\<open>regex\<close>, \<open>open\<close>,
  \<open>close\<close>, \<open>toc\<close>). A key that is absent is \<open>None\<close>, and so is a key that is present
  with the value \<open>undefined\<close>: the source reads each key through a test (\<open>||\<close>,
  \<open>!== false\<close>, \<open>=== false\<close>, \<open>typeof\<close>, \<open>Array.isArray\<close>, truthiness) that does not tell
  the two apart. The exception is \<open>firsth1\<close>, whose default comes from the spread in the
  constructor of the adapter: a key that is present overrides the default also when its
  value is \<open>undefined\<close>, so for this key \<open>None\<close> is the absent key and \<open>undefined\<close> is a value
  (\<open>Firsth1Undefined\<close>, which also stands for the other falsy values \<open>null\<close> and \<open>0\<close> that a
  caller without types may pass: the only read of the key is \<open>!this.options.firsth1\<close>).
  A callback is a function of its text argument, and the filter also of the heading and
  the list of headings; the options object that the source hands to a callback as well
  is not an argument here. A custom \<open>regex\<close> is given by its match function.
\<close>

datatype firsth1_option = Firsth1Undefined | Firsth1Bool bool

datatype glyphs = GlyphString jsstring | GlyphArray "jsstring list"

datatype slugify_option = SlugifyFalse | SlugifyFun "jsstring \<Rightarrow> jsstring"

datatype titleize_option = TitleizeBool bool | TitleizeFun "jsstring \<Rightarrow> jsstring"

datatype linkify_option = LinkifyBool bool | LinkifyFun

record options =
  o_firsth1 :: "firsth1_option option"
  o_maxdepth :: "int option"
  o_bullets :: "glyphs option"
  o_chars :: "glyphs option"
  o_indent :: "jsstring option"
  o_append :: "jsstring option"
  o_filter :: "(jsstring \<Rightarrow> heading \<Rightarrow> heading list \<Rightarrow> bool) option"
  o_slugify :: "slugify_option option"
  o_linkify :: "linkify_option option"
  o_titleize :: "titleize_option option"
  o_stripHeadingTags :: "bool option"
  o_num :: "int option"
  o_regex :: "regex option"
  o_open :: "jsstring option"
  o_close :: "jsstring option"
  o_toc :: "jsstring option"

definition no_options :: options where
  \<comment> \<open>the empty options object \<open>{}\<close>\<close>
  "no_options =
     \<lparr>o_firsth1 = None, o_maxdepth = None, o_bullets = None, o_chars = None, o_indent = None,
      o_append = None, o_filter = None, o_slugify = None, o_linkify = None,
      o_titleize = None, o_stripHeadingTags = None, o_num = None, o_regex = None,
      o_open = None, o_close = None, o_toc = None\<rparr>"

record toc_result =
  toc_content :: jsstring
  json :: "heading list"
  highest :: int
  toc_tokens :: "token list"

text \<open>
  What the source takes from its dependencies and from the JavaScript runtime:
  \<open>marked.lexer\<close>, \<open>strip-ansi\<close>, \<open>String.prototype.toLowerCase\<close>, the table of
  \<open>diacritics-map\<close>, and \<open>gray-matter\<close> with its \<open>stringify\<close>. They are parameters of the
  model. Parsing front matter raises on malformed metadata: \<open>None\<close>.
\<close>

record 'd runtime =
  lexer :: "jsstring \<Rightarrow> token list"
  stripColor :: "jsstring \<Rightarrow> jsstring"
  toLowerCase :: "jsstring \<Rightarrow> jsstring"
  diacritics :: "nat \<Rightarrow> jsstring option"
  matter :: "jsstring \<Rightarrow> (jsstring \<times> 'd) option"
  matter_stringify :: "jsstring \<Rightarrow> 'd \<Rightarrow> jsstring"

section \<open>The slugifier (\<open>utils.ts\<close>)\<close>

definition getTitle :: "jsstring \<Rightarrow> jsstring" where
  \<comment> \<open>\<open>/^\[([^\]]+)\]/\<close>: the first group when the text begins with a bracketed label\<close>
  "getTitle str =
     (case str of
        [] \<Rightarrow> str
      | c # r \<Rightarrow>
          if c = 0x5B \<and> takeWhile (\<lambda>x. x \<noteq> 0x5D) r \<noteq> [] \<and> dropWhile (\<lambda>x. x \<noteq> 0x5D) r \<noteq> []
          then takeWhile (\<lambda>x. x \<noteq> 0x5D) r
          else str)"

definition replaceDiacritics :: "'d runtime \<Rightarrow> jsstring \<Rightarrow> jsstring" where
  "replaceDiacritics rt str =
     replace_all (re_class (\<lambda>c. 0xC0 \<le> c \<and> c \<le> 0x17E))
       (\<lambda>ch. case diacritics rt (hd ch) of
                None \<Rightarrow> ch
              | Some d \<Rightarrow> if d = [] then ch else d)
       str"

definition slugify :: "'d runtime \<Rightarrow> options \<Rightarrow> jsstring \<Rightarrow> jsstring" where
  "slugify rt opts str0 =
     (case o_slugify opts of
        Some SlugifyFalse \<Rightarrow> str0
      | Some (SlugifyFun f) \<Rightarrow> f str0
      | None \<Rightarrow>
          (let str = getTitle str0;
               str = stripColor rt str;
               str = toLowerCase rt str;
               str = replace_all (re_run is_space) (\<lambda>_. js ''-'') str;
               str = replace_all (re_class (\<lambda>c. c = 0x9)) (\<lambda>_. js ''--'') str;
               str = (if o_stripHeadingTags opts \<noteq> Some False
                      then replace_all re_tag (\<lambda>_. []) str else str);
               str = replace_all (re_class punctuation) (\<lambda>_. []) str;
               str = replace_all (re_class cjk_punctuation) (\<lambda>_. []) str;
               str = replaceDiacritics rt str
           in case o_num opts of
                None \<Rightarrow> str
              | Some n \<Rightarrow> if n = 0 then str else str @ js ''-'' @ show_int n))"

section \<open>The heading extractor (\<open>MarkedAdapter\<close>)\<close>

text \<open>
  The mutable fields of the adapter. \<open>seen_table\<close> is the field \<open>seen\<close> of the class: an
  object used as a table from heading text to a count, read through the prototype chain.
\<close>

record adapter =
  seen_table :: "jsstring \<rightharpoonup> seen_value"
  headings :: "heading list"

definition new_adapter :: adapter where
  "new_adapter = \<lparr>seen_table = Map.empty, headings = []\<rparr>"

definition adapter_options :: "options \<Rightarrow> options" where
  \<comment> \<open>the constructor: \<open>{firsth1: true, maxdepth: 6, linkify: true, ...options}\<close>; a
      key of \<open>options\<close> that is present replaces the default, whatever its value\<close>
  "adapter_options opts =
     opts\<lparr>o_firsth1 := Some (case o_firsth1 opts of None \<Rightarrow> Firsth1Bool True | Some v \<Rightarrow> v),
          o_maxdepth := Some (case o_maxdepth opts of None \<Rightarrow> 6 | Some m \<Rightarrow> m),
          o_linkify := Some (case o_linkify opts of None \<Rightarrow> LinkifyBool True | Some l \<Rightarrow> l)\<rparr>"

definition maxdepth_of :: "options \<Rightarrow> int" where
  \<comment> \<open>\<open>this.options.maxdepth || 6\<close>\<close>
  "maxdepth_of opts = (case o_maxdepth opts of None \<Rightarrow> 6 | Some m \<Rightarrow> if m = 0 then 6 else m)"

definition object_prototype_keys :: "jsstring list" where
  "object_prototype_keys =
     map js [''constructor'', ''__defineGetter__'', ''__defineSetter__'', ''hasOwnProperty'',
             ''__lookupGetter__'', ''__lookupSetter__'', ''isPrototypeOf'',
             ''propertyIsEnumerable'', ''toString'', ''valueOf'', ''__proto__'',
             ''toLocaleString'']"

definition seen_get :: "(jsstring \<rightharpoonup> seen_value) \<Rightarrow> jsstring \<Rightarrow> seen_value" where
  \<comment> \<open>\<open>this.seen[text]\<close>: the own property, else the inherited one, else \<open>undefined\<close>\<close>
  "seen_get tab k =
     (case tab k of
        Some v \<Rightarrow> v
      | None \<Rightarrow> if k \<in> set object_prototype_keys then Inherited else Undefined)"

definition seen_set :: "(jsstring \<rightharpoonup> seen_value) \<Rightarrow> jsstring \<Rightarrow> seen_value \<Rightarrow> (jsstring \<rightharpoonup> seen_value)" where
  \<comment> \<open>\<open>this.seen[text] = v\<close> for a number \<open>v\<close>: the setter of \<open>__proto__\<close> ignores it\<close>
  "seen_set tab k v = (if k = js ''__proto__'' then tab else tab(k \<mapsto> v))"

definition truthy :: "seen_value \<Rightarrow> bool" where
  "truthy v = (case v of Num n \<Rightarrow> n \<noteq> 0 | Inherited \<Rightarrow> True | _ \<Rightarrow> False)"

definition track_seen :: "(jsstring \<rightharpoonup> seen_value) \<Rightarrow> jsstring \<Rightarrow> (jsstring \<rightharpoonup> seen_value)" where
  \<comment> \<open>\<open>if (!this.seen[text]) this.seen[text] = 0; else this.seen[text]++;\<close>\<close>
  "track_seen tab text =
     (if \<not> truthy (seen_get tab text) then seen_set tab text (Num 0)
      else (case seen_get tab text of
              Num n \<Rightarrow> seen_set tab text (Num (n + 1))
            | _ \<Rightarrow> seen_set tab text NaN))"

text \<open>
  \<open>getTokenText\<close> with its two helpers; \<open>childrenText\<close> is the loop
  \<open>for (const child of tokens) text += this.getTokenText(child)\<close> that the three of
  them share.
\<close>

function getTokenText :: "token \<Rightarrow> jsstring"
  and getTokenTextFromLink :: "jsstring \<Rightarrow> jsstring \<Rightarrow> token list option \<Rightarrow> jsstring"
  and getTokenTextFromFormatted :: "jsstring \<Rightarrow> token list option \<Rightarrow> jsstring"
  and childrenText :: "token list \<Rightarrow> jsstring"
where
  "getTokenText (Heading d t ts) = t"
| "getTokenText (Text t ts) = t"
| "getTokenText (Link href t ts) = getTokenTextFromLink href t ts"
| "getTokenText (Strong t ts) = getTokenTextFromFormatted t ts"
| "getTokenText (Em t ts) = getTokenTextFromFormatted t ts"
| "getTokenText (Codespan t) = getTokenTextFromFormatted t None"
| "getTokenText (Image href t) = []"
| "getTokenText (Other t ts) =
     (case t of
        Some s \<Rightarrow> s
      | None \<Rightarrow> (case ts of Some cs \<Rightarrow> childrenText cs | None \<Rightarrow> []))"
| "getTokenTextFromLink href t ts =
     (if t \<noteq> [] then t
      else case ts of Some cs \<Rightarrow> childrenText cs | None \<Rightarrow> href)"
| "getTokenTextFromFormatted t ts =
     (if t \<noteq> [] then t
      else case ts of Some cs \<Rightarrow> childrenText cs | None \<Rightarrow> [])"
| "childrenText [] = []"
| "childrenText (c # cs) = getTokenText c @ childrenText cs"
  by pat_completeness auto
termination
  by (relation "measure (\<lambda>x. case x of
        Inl (Inl tok) \<Rightarrow> 2 * size tok + 2
      | Inl (Inr (href, t, ts)) \<Rightarrow> (case ts of None \<Rightarrow> 1 | Some cs \<Rightarrow> 2 * size_list size cs + 3)
      | Inr (Inl (t, ts)) \<Rightarrow> (case ts of None \<Rightarrow> 1 | Some cs \<Rightarrow> 2 * size_list size cs + 3)
      | Inr (Inr cs) \<Rightarrow> 2 * size_list size cs + 1)")
    (auto split: option.splits)

text \<open>
  \<open>processHeadingToken(token, depth)\<close> and the loop over the child tokens at its end.
  The first test compares the \<open>depth\<close> argument, which is 0 for a token of the document
  and the depth of the enclosing heading for a child, with the maximum depth.
\<close>

fun processHeadingToken :: "'d runtime \<Rightarrow> options \<Rightarrow> token \<Rightarrow> int \<Rightarrow> adapter \<Rightarrow> adapter"
  and processChildren :: "'d runtime \<Rightarrow> options \<Rightarrow> token list \<Rightarrow> int \<Rightarrow> adapter \<Rightarrow> adapter"
where
  "processHeadingToken rt opts (Heading headingDepth t ts) depth st =
     (if depth > maxdepth_of opts then st
      else
        (let text = getTokenText (Heading headingDepth t ts);
             slug0 = slugify rt opts text;
             tab = track_seen (seen_table st) text;
             h = \<lparr>content = text, slug = slug0, lvl = headingDepth,
                  idx = length (headings st), seen = seen_get tab text\<rparr>;
             st' = \<lparr>seen_table = tab, headings = headings st @ [h]\<rparr>
         in case ts of
              None \<Rightarrow> st'
            | Some cs \<Rightarrow> processChildren rt opts cs headingDepth st'))"
| "processHeadingToken rt opts _ depth st = st"
| "processChildren rt opts [] depth st = st"
| "processChildren rt opts (c # cs) depth st =
     processChildren rt opts cs depth (processHeadingToken rt opts c depth st)"

definition record_heading :: "'d runtime \<Rightarrow> options \<Rightarrow> int \<Rightarrow> jsstring \<Rightarrow> token list option \<Rightarrow> adapter \<Rightarrow> adapter" where
  \<comment> \<open>the state after \<open>this.headings.push(heading)\<close> in \<open>processHeadingToken\<close>, named for
      the proofs\<close>
  "record_heading rt opts headingDepth t ts st =
     (let text = getTokenText (Heading headingDepth t ts);
          tab = track_seen (seen_table st) text
      in \<lparr>seen_table = tab,
          headings = headings st @
            [\<lparr>content = text, slug = slugify rt opts text, lvl = headingDepth,
              idx = length (headings st), seen = seen_get tab text\<rparr>]\<rparr>)"

fun extractHeadings :: "'d runtime \<Rightarrow> options \<Rightarrow> token list \<Rightarrow> adapter \<Rightarrow> adapter" where
  "extractHeadings rt opts [] st = st"
| "extractHeadings rt opts (Heading d t ts # tokens) st =
     extractHeadings rt opts tokens (processHeadingToken rt opts (Heading d t ts) 0 st)"
| "extractHeadings rt opts (_ # tokens) st = extractHeadings rt opts tokens st"

definition processHeadings :: "options \<Rightarrow> heading list \<Rightarrow> heading list" where
  \<comment> \<open>\<open>if (!this.options.firsth1) slice(1)\<close>: the first heading stays for \<open>true\<close> alone\<close>
  "processHeadings opts hs =
     (let hs1 = (if o_firsth1 opts = Some (Firsth1Bool True) then hs else drop 1 hs)
      in case o_filter opts of
           None \<Rightarrow> hs1
         | Some f \<Rightarrow> filter (\<lambda>h. f (content h) h hs1) hs1)"

section \<open>The renderer\<close>

definition getHighestLevel :: "heading list \<Rightarrow> int" where
  "getHighestLevel hs = (case map lvl hs of [] \<Rightarrow> 0 | l # ls \<Rightarrow> fold min ls l)"

fun join :: "jsstring \<Rightarrow> jsstring list \<Rightarrow> jsstring" where
  "join sep [] = []"
| "join sep [x] = x"
| "join sep (x # y # ys) = x @ sep @ join sep (y # ys)"

definition titleize :: "options \<Rightarrow> jsstring \<Rightarrow> jsstring" where
  "titleize opts str =
     (case o_titleize opts of
        Some (TitleizeFun f) \<Rightarrow> f str
      | _ \<Rightarrow>
          (let result = (if o_stripHeadingTags opts \<noteq> Some False
                         then replace_all re_tag (\<lambda>_. []) str else str)
           in trim (replace_all (re_run (\<lambda>c. c = 0x20 \<or> c = 0x9)) (\<lambda>_. js '' '') result)))"

definition default_bullets :: glyphs where
  "default_bullets = GlyphArray [js ''-'', js ''*'', js ''+'']"

definition glyph_length :: "glyphs \<Rightarrow> nat" where
  "glyph_length g = (case g of GlyphString s \<Rightarrow> length s | GlyphArray bs \<Rightarrow> length bs)"

definition glyph_at :: "glyphs \<Rightarrow> int \<Rightarrow> jsstring option" where
  \<comment> \<open>\<open>bullets[k]\<close>; \<open>None\<close> is \<open>undefined\<close>, and a string gives its code unit as a string\<close>
  "glyph_at g k =
     (if k < 0 \<or> int (glyph_length g) \<le> k then None
      else (case g of
              GlyphString s \<Rightarrow> Some [s ! nat k]
            | GlyphArray bs \<Rightarrow> Some (bs ! nat k)))"

definition toc_bullets :: "options \<Rightarrow> glyphs" where
  \<comment> \<open>\<open>Array.isArray(bullets) ? bullets : chars || ["-", "*", "+"]\<close>\<close>
  "toc_bullets opts =
     (case o_bullets opts of
        Some (GlyphArray bs) \<Rightarrow> GlyphArray bs
      | _ \<Rightarrow>
          (case o_chars opts of
             None \<Rightarrow> default_bullets
           | Some (GlyphString s) \<Rightarrow> if s = [] then default_bullets else GlyphString s
           | Some (GlyphArray cs) \<Rightarrow> GlyphArray cs))"

definition glyph_list :: "glyphs \<Rightarrow> jsstring list" where
  \<comment> \<open>the glyphs as the list that indexing reads: the elements of an array, the code
      units of a string; named for the proofs\<close>
  "glyph_list g = (case g of GlyphArray bs \<Rightarrow> bs | GlyphString c \<Rightarrow> map (\<lambda>x. [x]) c)"

definition toc_line :: "options \<Rightarrow> heading list \<Rightarrow> heading \<Rightarrow> jsstring" where
  \<comment> \<open>the body of the loop of \<open>generateTOCContent\<close> for a heading that is not skipped\<close>
  "toc_line opts hs h =
     (let bullets = toc_bullets opts;
          indent = (case o_indent opts of None \<Rightarrow> js ''  '' | Some s \<Rightarrow> if s = [] then js ''  '' else s);
          bulletIndex = min (lvl h - 1) (int (glyph_length bullets) - 1);
          bullet = (case glyph_at bullets bulletIndex of
                      None \<Rightarrow> js ''-''
                    | Some b \<Rightarrow> if b = [] then js ''-'' else b);
          highestLevel = getHighestLevel hs;
          indentLevel = max 0 (lvl h - highestLevel);
          indentation = concat (replicate (nat indentLevel) indent)
      in case o_linkify opts of
           Some (LinkifyBool False) \<Rightarrow> indentation @ bullet @ js '' '' @ content h
         | _ \<Rightarrow>
             (let linkText = (case o_titleize opts of
                                Some (TitleizeBool False) \<Rightarrow> content h
                              | _ \<Rightarrow> titleize opts (content h))
              in indentation @ bullet @ js '' ['' @ linkText @ js ''](#'' @ slug h @ js '')''))"

definition generateTOCContent :: "options \<Rightarrow> heading list \<Rightarrow> jsstring" where
  "generateTOCContent opts hs =
     (let lines = map (toc_line opts hs) (filter (\<lambda>h. \<not> lvl h > maxdepth_of opts) hs);
          lines = (case o_append opts of
                     None \<Rightarrow> lines
                   | Some a \<Rightarrow> if a = [] then lines else lines @ [a])
      in join [0xA] lines)"

definition generateJSONOutput :: "heading list \<Rightarrow> heading list" where
  "generateJSONOutput hs =
     map (\<lambda>h. \<lparr>content = content h, slug = slug h, lvl = lvl h, idx = idx h, seen = seen h\<rparr>) hs"

definition parse :: "'d runtime \<Rightarrow> options \<Rightarrow> jsstring \<Rightarrow> toc_result" where
  \<comment> \<open>\<open>new MarkedAdapter(options).parse(content)\<close>\<close>
  "parse rt options str =
     (let opts = adapter_options options;
          tokens = lexer rt str;
          st = extractHeadings rt opts tokens new_adapter;
          hs = processHeadings opts (headings st)
      in \<lparr>toc_content = generateTOCContent opts hs,
          json = generateJSONOutput hs,
          highest = getHighestLevel hs,
          toc_tokens = tokens\<rparr>)"

definition toc :: "'d runtime \<Rightarrow> options \<Rightarrow> jsstring \<Rightarrow> toc_result" where
  \<comment> \<open>\<open>toc(str, options)\<close>, through \<open>parseWithFallback\<close>, which raises again what it catches\<close>
  "toc rt options str = parse rt options str"

section \<open>The marker splicer (\<open>insert.ts\<close>)\<close>

datatype error =
    OneTocPerFile  \<comment> \<open>"markdown-toc only supports one Table of Contents per file."\<close>
  | FrontMatterError  \<comment> \<open>raised by the front-matter parser\<close>

definition split_sections :: "jsstring \<Rightarrow> regex \<Rightarrow> jsstring list" where
  \<comment> \<open>\<open>split(str, re)\<close> of \<open>insert.ts\<close>: \<open>str.split(re).map(trim)\<close>\<close>
  "split_sections str re = map trim (split_re str re)"

definition trailing_newlines :: "jsstring \<Rightarrow> jsstring" where
  \<comment> \<open>\<open>(/\n+$/.exec(str) || [""])[0]\<close>: the run of line feeds at the end\<close>
  "trailing_newlines str = rev (takeWhile (\<lambda>c. c = 0xA) (rev str))"

fun has_marker :: "jsstring \<Rightarrow> bool" where
  \<comment> \<open>a TOC marker comment occurs in the text: the default pattern matches at some
      position; named for the statements about \<open>insert\<close>\<close>
  "has_marker [] = False"
| "has_marker (c # cs) = (case re_marker (c # cs) of Some n \<Rightarrow> True | None \<Rightarrow> has_marker cs)"

definition marker_regex :: "options \<Rightarrow> regex" where
  "marker_regex options = (case o_regex options of None \<Rightarrow> re_marker | Some re \<Rightarrow> re)"

definition open_marker :: "options \<Rightarrow> jsstring" where
  "open_marker options = (case o_open options of None \<Rightarrow> js ''<!-- toc -->'' @ [0xA, 0xA] | Some s \<Rightarrow> s)"

definition close_marker :: "options \<Rightarrow> jsstring" where
  "close_marker options = (case o_close options of None \<Rightarrow> js ''<!-- tocstop -->'' | Some s \<Rightarrow> s)"

definition supplied_toc :: "'d runtime \<Rightarrow> options \<Rightarrow> jsstring \<Rightarrow> jsstring" where
  \<comment> \<open>\<open>options.toc || toc(last, options).content\<close>\<close>
  "supplied_toc rt options lst =
     (case o_toc options of
        None \<Rightarrow> toc_content (toc rt options lst)
      | Some t \<Rightarrow> if t = [] then toc_content (toc rt options lst) else t)"

definition splice :: "'d runtime \<Rightarrow> options \<Rightarrow> jsstring list \<Rightarrow> jsstring list" where
  \<comment> \<open>the two \<open>if\<close> statements on \<open>sections.length\<close>; \<open>last sections\<close> is read in them only\<close>
  "splice rt options sections =
     (let sections1 =
            (if length sections = 3
             then [sections ! 0, open_marker options @ supplied_toc rt options (last sections),
                   close_marker options, sections ! 2]
             else sections)
      in if length sections1 = 2
         then [sections1 ! 0,
               open_marker options @ toc_content (toc rt options (last sections)) @ [0xA, 0xA]
                 @ close_marker options,
               sections1 ! 1]
         else sections1)"

definition front_matter :: "'d runtime \<Rightarrow> jsstring \<Rightarrow> (jsstring \<times> 'd option) option" where
  \<comment> \<open>\<open>if (/^---/.test(str)) { obj = utils.matter(str); str = obj.content; }\<close>: the body
      and the parsed object, or \<open>None\<close> when the parser raises\<close>
  "front_matter rt str0 =
     (if prefix (js ''---'') str0
      then (case matter rt str0 of
              None \<Rightarrow> None
            | Some (body, d) \<Rightarrow> Some (body, Some d))
      else Some (str0, None))"

definition insert_toc :: "'d runtime \<Rightarrow> options \<Rightarrow> jsstring \<Rightarrow> error + jsstring" where
  \<comment> \<open>\<open>insert(str, options)\<close>; a \<open>throw\<close> is \<open>Inl\<close>\<close>
  "insert_toc rt options str0 =
     (let newlines = trailing_newlines str0
      in case front_matter rt str0 of
           None \<Rightarrow> Inl FrontMatterError
         | Some (str, obj) \<Rightarrow>
             (let sections = split_sections str (marker_regex options)
              in if length sections > 3 then Inl OneTocPerFile
                 else
                   (let resultString = join [0xA, 0xA] (splice rt options sections) @ newlines
                    in Inr (case obj of
                              None \<Rightarrow> resultString
                            | Some d \<Rightarrow> matter_stringify rt resultString d))))"

section \<open>A runtime for closed examples\<close>

text \<open>
  Closed examples need a concrete runtime. Over ASCII text lower-casing maps \<open>A\<close>..\<open>Z\<close>
  and nothing is an escape sequence; the diacritics table is not consulted and the
  examples have no front matter. The tokenizer covers the documents of the examples:
  every line that is not blank is an ATX heading of plain text (one to six \<open>#\<close>, then
  white space or the end of the line), or else a paragraph.
\<close>

definition ascii_lower :: "nat \<Rightarrow> nat" where
  "ascii_lower c = (if 0x41 \<le> c \<and> c \<le> 0x5A then c + 0x20 else c)"

definition atx_token :: "jsstring \<Rightarrow> token" where
  "atx_token line =
     (let n = length (takeWhile (\<lambda>c. c = 0x23) line); r = drop n line
      in if 1 \<le> n \<and> n \<le> 6 \<and> (r = [] \<or> is_space (hd r))
         then Heading (int n) (trim r) (Some (if trim r = [] then [] else [Text (trim r) None]))
         else Other (Some line) None)"

definition atx_lexer :: "jsstring \<Rightarrow> token list" where
  "atx_lexer str =
     map atx_token (filter (\<lambda>l. trim l \<noteq> []) (split_re str (re_class (\<lambda>c. c = 0xA))))"

definition ascii_runtime :: "unit runtime" where
  "ascii_runtime =
     \<lparr>lexer = atx_lexer, stripColor = (\<lambda>s. s), toLowerCase = map ascii_lower,
      diacritics = (\<lambda>c. None), matter = (\<lambda>s. Some (s, ())),
      matter_stringify = (\<lambda>s d. s)\<rparr>"

definition host_ok :: "'d runtime \<Rightarrow> bool" where
  \<comment> \<open>what the examples use of the runtime: on ASCII text \<open>toLowerCase\<close> maps the
      capital letters only, and \<open>strip-ansi\<close> changes no text without ESC or CSI\<close>
  "host_ok rt \<longleftrightarrow>
     (\<forall>s. (\<forall>c \<in> set s. c < 0x80) \<longrightarrow> toLowerCase rt s = map ascii_lower s) \<and>
     (\<forall>s. 0x1B \<notin> set s \<and> 0x9B \<notin> set s \<longrightarrow> stripColor rt s = s)"

section \<open>Slugs\<close>

lemma host_ok_ascii_runtime: "host_ok ascii_runtime"
  by (simp add: host_ok_def ascii_runtime_def)

lemma set_getTitle: "set (getTitle s) \<subseteq> set s"
  by (auto simp: getTitle_def split: list.splits dest: set_takeWhileD)

lemma slugify_ascii:
  assumes "host_ok rt" and "o_slugify opts = None"
    and "\<forall>c \<in> set s. c < 0x80 \<and> c \<noteq> 0x1B"
  shows "slugify rt opts s =
     (let str = map ascii_lower (getTitle s);
          str = replace_all (re_run is_space) (\<lambda>_. js ''-'') str;
          str = replace_all (re_class (\<lambda>c. c = 0x9)) (\<lambda>_. js ''--'') str;
          str = (if o_stripHeadingTags opts \<noteq> Some False
                 then replace_all re_tag (\<lambda>_. []) str else str);
          str = replace_all (re_class punctuation) (\<lambda>_. []) str;
          str = replace_all (re_class cjk_punctuation) (\<lambda>_. []) str;
          str = replaceDiacritics rt str
      in case o_num opts of
           None \<Rightarrow> str
         | Some n \<Rightarrow> if n = 0 then str else str @ js ''-'' @ show_int n)"
proof -
  have sub: "\<forall>c \<in> set (getTitle s). c < 0x80 \<and> c \<noteq> 0x1B"
    using assms(3) set_getTitle by blast
  then have strip: "stripColor rt (getTitle s) = getTitle s"
    using assms(1) unfolding host_ok_def by fastforce
  have lower: "toLowerCase rt (getTitle s) = map ascii_lower (getTitle s)"
    using assms(1) sub unfolding host_ok_def by simp
  show ?thesis
    by (simp add: slugify_def assms(2) strip lower)
qed

lemmas slug_eval =
  getTitle_def js_def ascii_lower_def re_run_def is_space_def re_class_def re_tag_def
  punctuation_def cjk_punctuation_def replaceDiacritics_def

lemma slugify_hello_world:
  assumes "host_ok rt"
  shows "slugify rt no_options (js ''Hello World!'') = js ''hello-world''"
  by (simp add: slugify_ascii [OF assms] no_options_def slug_eval)

lemma slugify_cpp_go:
  assumes "host_ok rt"
  shows "slugify rt no_options (js ''C++ & Go'') = js ''c--go''"
  by (simp add: slugify_ascii [OF assms] no_options_def slug_eval)

text \<open>
  Claim C6, as stated: with the default configuration \<open>slugify("Hello World!")\<close> is
  \<open>"hello-world"\<close> and \<open>slugify("C++ & Go")\<close> is \<open>"c-go"\<close>. The second value is not what
  the code returns: each of the two spaces becomes a hyphen, and the characters removed
  between them leave the two hyphens side by side.
\<close>

theorem C6_slugify_cpp_go_counterexample:
  "slugify ascii_runtime no_options (js ''C++ & Go'') \<noteq> js ''c-go''"
  using slugify_cpp_go [OF host_ok_ascii_runtime] by (simp add: js_def)

text \<open>
  Claim C6, amended: with the default configuration \<open>slugify("Hello World!")\<close> is
  \<open>"hello-world"\<close> and \<open>slugify("C++ & Go")\<close> is \<open>"c--go"\<close>, on every runtime whose
  \<open>toLowerCase\<close> and \<open>strip-ansi\<close> act on ASCII text as they should.
\<close>

theorem C6_slugify_examples:
  assumes "host_ok rt"
  shows "slugify rt no_options (js ''Hello World!'') = js ''hello-world'' \<and>
         slugify rt no_options (js ''C++ & Go'') = js ''c--go''"
  using assms slugify_hello_world slugify_cpp_go by blast

theorem C6_slugify_examples_witness:
  "host_ok ascii_runtime \<and>
   slugify ascii_runtime no_options (js ''Hello World!'') = js ''hello-world'' \<and>
   slugify ascii_runtime no_options (js ''C++ & Go'') = js ''c--go''"
  using C6_slugify_examples [OF host_ok_ascii_runtime] host_ok_ascii_runtime by simp

lemma slugify_tab:
  assumes "host_ok rt"
  shows "slugify rt no_options (js ''a'' @ [0x9] @ js ''b'') = js ''a-b''"
  by (simp add: slugify_ascii [OF assms] no_options_def slug_eval)

lemma no_space_after_hyphenation:
  "\<forall>c \<in> set (replace_all (re_run is_space) (\<lambda>_. js ''-'') s). \<not> is_space c"
proof (induction "re_run is_space" "\<lambda>_::jsstring. js ''-''" s rule: replace_all.induct)
  case 1
  then show ?case by (simp add: re_run_def)
next
  case (2 c cs)
  show ?case
  proof (cases "re_run is_space (c # cs)")
    case None
    then have "\<not> is_space c"
      by (simp add: re_run_def split: if_splits)
    then show ?thesis using None 2(1) by simp
  next
    case (Some n)
    then have "n \<noteq> 0"
      by (auto simp: re_run_def Let_def split: if_splits)
    then show ?thesis using Some 2(3) by (simp add: js_def is_space_def)
  qed
qed

lemma replace_class_absent:
  "\<forall>c \<in> set s. \<not> P c \<Longrightarrow> replace_all (re_class P) f s = s"
  by (induction s) (simp_all add: re_class_def)

lemma tab_step_never_fires:
  "replace_all (re_class (\<lambda>c. c = 0x9)) f (replace_all (re_run is_space) (\<lambda>_. js ''-'') s)
     = replace_all (re_run is_space) (\<lambda>_. js ''-'') s"
proof (rule replace_class_absent)
  show "\<forall>c \<in> set (replace_all (re_run is_space) (\<lambda>_. js ''-'') s). \<not> c = 0x9"
    using no_space_after_hyphenation [of s] by (auto simp: is_space_def)
qed

text \<open>
  Claim C5: in \<open>slugify\<close> with the default configuration every run of white space is
  replaced with one hyphen and every tab with two, so a tab contributes \<open>--\<close> to the
  slug. The code replaces the runs of white space first, and a tab is white space: at
  the input \<open>a<TAB>b\<close> the result is \<open>a-b\<close>. By \<open>tab_step_never_fires\<close> the replacement of
  tabs finds nothing to replace at any input.
\<close>

theorem C5_tab_gives_one_hyphen:
  assumes "host_ok rt"
  shows "slugify rt no_options (js ''a'' @ [0x9] @ js ''b'') = js ''a-b''"
  using assms by (rule slugify_tab)

theorem C5_tab_gives_one_hyphen_witness:
  "host_ok ascii_runtime \<and>
   slugify ascii_runtime no_options (js ''a'' @ [0x9] @ js ''b'') = js ''a-b''"
  using C5_tab_gives_one_hyphen [OF host_ok_ascii_runtime] host_ok_ascii_runtime by simp

section \<open>Extraction\<close>

lemma processHeadingToken_Heading:
  "processHeadingToken rt opts (Heading d t ts) depth st =
     (if depth > maxdepth_of opts then st
      else case ts of
             None \<Rightarrow> record_heading rt opts d t ts st
           | Some cs \<Rightarrow> processChildren rt opts cs d (record_heading rt opts d t ts st))"
  by (simp add: record_heading_def Let_def split: option.splits)

text \<open>
  A property of the adapter that every recorded heading preserves holds after the whole
  extraction.
\<close>

lemma process_invariant:
  "(\<And>d t ts st. P st \<Longrightarrow> P (record_heading rt opts d t ts st)) \<Longrightarrow> P st
     \<Longrightarrow> P (processHeadingToken rt opts tok depth st)"
  "(\<And>d t ts st. P st \<Longrightarrow> P (record_heading rt opts d t ts st)) \<Longrightarrow> P st
     \<Longrightarrow> P (processChildren rt opts toks depth st)"
proof (induction rt opts tok depth st and rt opts toks depth st
    rule: processHeadingToken_processChildren.induct)
  case (1 rt opts headingDepth t ts depth st)
  show ?case
  proof (cases "depth > maxdepth_of opts")
    case True
    then show ?thesis using "1.prems" by simp
  next
    case False
    have d: "P (record_heading rt opts headingDepth t ts st)"
      using "1.prems"(2) by (rule "1.prems"(1))
    show ?thesis
    proof (cases ts)
      case None
      then show ?thesis
        using False d by (simp only: processHeadingToken_Heading if_False option.case)
    next
      case (Some cs)
      have "P (processChildren rt opts cs headingDepth
                 (record_heading rt opts headingDepth t ts st))"
        using "1.IH" [OF False refl refl refl refl, of _ cs] d Some "1.prems"(1)
        by (simp add: record_heading_def Let_def)
      then show ?thesis
        using False Some by (simp only: processHeadingToken_Heading if_False option.case)
    qed
  qed
next
  case (4 rt opts c cs depth st)
  then show ?case by simp
qed simp_all

lemma extract_invariant:
  "(\<And>d t ts st. P st \<Longrightarrow> P (record_heading rt opts d t ts st)) \<Longrightarrow> P st
     \<Longrightarrow> P (extractHeadings rt opts tokens st)"
proof (induction rt opts tokens st rule: extractHeadings.induct)
  case (2 rt opts d t ts tokens st)
  have "P (processHeadingToken rt opts (Heading d t ts) 0 st)"
    using process_invariant(1) [of P rt opts st] "2.prems" by blast
  then show ?case using "2.IH" "2.prems"(1) by simp
qed simp_all


lemma track_seen_small:
  assumes "\<forall>k v. tab k = Some v \<longrightarrow> v = Num 0 \<or> v = NaN"
  shows "\<forall>k v. track_seen tab text k = Some v \<longrightarrow> v = Num 0 \<or> v = NaN"
    and "seen_get (track_seen tab text) text \<in> {Num 0, NaN, Inherited}"
proof -
  have p: "js ''__proto__'' \<in> set object_prototype_keys"
    by (simp add: object_prototype_keys_def)
  show "\<forall>k v. track_seen tab text k = Some v \<longrightarrow> v = Num 0 \<or> v = NaN"
    using assms
    by (auto simp: track_seen_def seen_get_def seen_set_def truthy_def
        split: option.splits seen_value.splits if_splits)
  show "seen_get (track_seen tab text) text \<in> {Num 0, NaN, Inherited}"
    using assms p
    by (fastforce simp: track_seen_def seen_get_def seen_set_def truthy_def
        split: option.splits seen_value.splits if_splits)
qed

text \<open>
  The count of a heading text never leaves 0: the test \<open>!this.seen[text]\<close> holds for the
  count 0 as it does for a missing entry, so the entry is set to 0 again.
\<close>

lemma seen_never_counts:
  "Num (Suc n) \<notin> seen ` set (headings (extractHeadings rt opts tokens new_adapter))"
proof -
  let ?P = "\<lambda>st. (\<forall>k v. seen_table st k = Some v \<longrightarrow> v = Num 0 \<or> v = NaN) \<and>
                 (\<forall>h \<in> set (headings st). seen h \<in> {Num 0, NaN, Inherited})"
  have "?P (extractHeadings rt opts tokens new_adapter)"
  proof (rule extract_invariant [where P = ?P])
    fix d t ts and st :: adapter
    assume p: "?P st"
    let ?text = "getTokenText (Heading d t ts)"
    have a: "\<forall>k v. track_seen (seen_table st) ?text k = Some v \<longrightarrow> v = Num 0 \<or> v = NaN"
      using track_seen_small(1) p by blast
    have b: "seen_get (track_seen (seen_table st) ?text) ?text \<in> {Num 0, NaN, Inherited}"
      using track_seen_small(2) p by blast
    show "?P (record_heading rt opts d t ts st)"
      using a b p by (auto simp: record_heading_def Let_def)
  qed (simp add: new_adapter_def)
  then show ?thesis by force
qed

lemma heading_rebuild:
  "\<lparr>content = content h, slug = slug h, lvl = lvl h, idx = idx h, seen = seen h\<rparr> = (h::heading)"
  by (cases h) simp

lemma generateJSONOutput_id: "generateJSONOutput hs = hs"
  by (simp add: generateJSONOutput_def heading_rebuild)

lemma json_parse:
  "json (parse rt options str) =
     processHeadings (adapter_options options)
       (headings (extractHeadings rt (adapter_options options) (lexer rt str) new_adapter))"
  by (simp add: parse_def Let_def generateJSONOutput_id)

lemmas render_eval =
  generateTOCContent_def toc_line_def toc_bullets_def default_bullets_def glyph_at_def
  glyph_length_def getHighestLevel_def titleize_def maxdepth_of_def adapter_options_def
  no_options_def Let_def re_tag_def re_run_def trim_def is_space_def js_def

lemma atx_lexer_A_A:
  "atx_lexer (js ''## A\<newline>## A\<newline>'') =
     [Heading 2 (js ''A'') (Some [Text (js ''A'') None]),
      Heading 2 (js ''A'') (Some [Text (js ''A'') None])]"
  by (simp add: atx_lexer_def split_re_def re_class_def js_def atx_token_def trim_def
      is_space_def Let_def)

lemma atx_lexer_A_B:
  "atx_lexer (js ''# A\<newline>### B\<newline>'') =
     [Heading 1 (js ''A'') (Some [Text (js ''A'') None]),
      Heading 3 (js ''B'') (Some [Text (js ''B'') None])]"
  by (simp add: atx_lexer_def split_re_def re_class_def js_def atx_token_def trim_def
      is_space_def Let_def)

lemma extract_two_headings:
  assumes "0 \<le> maxdepth_of opts"
  shows "headings (extractHeadings rt opts
      [Heading da ta (Some [Text ta None]), Heading db tb (Some [Text tb None])] new_adapter) =
     [\<lparr>content = ta, slug = slugify rt opts ta, lvl = da, idx = 0,
       seen = seen_get (track_seen Map.empty ta) ta\<rparr>,
      \<lparr>content = tb, slug = slugify rt opts tb, lvl = db, idx = 1,
       seen = seen_get (track_seen (track_seen Map.empty ta) tb) tb\<rparr>]"
  using assms by (simp add: record_heading_def new_adapter_def Let_def)

lemmas seen_eval =
  track_seen_def seen_get_def seen_set_def truthy_def object_prototype_keys_def js_def

lemma maxdepth_default: "maxdepth_of (adapter_options no_options) = 6"
  by (simp add: maxdepth_of_def adapter_options_def no_options_def)

lemma processHeadings_default:
  "processHeadings (adapter_options no_options) hs = hs"
  by (simp add: processHeadings_def adapter_options_def no_options_def)

lemma json_A_A:
  assumes "lexer rt (js ''## A\<newline>## A\<newline>'') =
      [Heading 2 (js ''A'') (Some [Text (js ''A'') None]),
       Heading 2 (js ''A'') (Some [Text (js ''A'') None])]"
  shows "json (parse rt no_options (js ''## A\<newline>## A\<newline>'')) =
     [\<lparr>content = js ''A'', slug = slugify rt (adapter_options no_options) (js ''A''),
       lvl = 2, idx = 0, seen = Num 0\<rparr>,
      \<lparr>content = js ''A'', slug = slugify rt (adapter_options no_options) (js ''A''),
       lvl = 2, idx = 1, seen = Num 0\<rparr>]"
proof -
  have s1: "seen_get (track_seen Map.empty (js ''A'')) (js ''A'') = Num 0"
    by (simp add: seen_eval)
  have s2: "seen_get (track_seen (track_seen Map.empty (js ''A'')) (js ''A'')) (js ''A'') = Num 0"
    by (simp add: seen_eval)
  have m: "0 \<le> maxdepth_of (adapter_options no_options)"
    by (simp add: maxdepth_default)
  have e: "headings (extractHeadings rt (adapter_options no_options)
      [Heading 2 (js ''A'') (Some [Text (js ''A'') None]),
       Heading 2 (js ''A'') (Some [Text (js ''A'') None])] new_adapter) =
     [\<lparr>content = js ''A'', slug = slugify rt (adapter_options no_options) (js ''A''),
       lvl = 2, idx = 0, seen = Num 0\<rparr>,
      \<lparr>content = js ''A'', slug = slugify rt (adapter_options no_options) (js ''A''),
       lvl = 2, idx = 1, seen = Num 0\<rparr>]"
    using extract_two_headings [OF m, where rt = rt and da = 2 and db = 2
        and ta = "js ''A''" and tb = "js ''A''"]
    by (simp only: s1 s2)
  show ?thesis
    unfolding json_parse assms e processHeadings_default by (rule refl)
qed

lemma slugify_A:
  assumes "host_ok rt"
  shows "slugify rt (adapter_options no_options) (js ''A'') = js ''a''"
  by (simp add: slugify_ascii [OF assms] no_options_def adapter_options_def slug_eval)

text \<open>
  Claim C1: among the produced heading records those with identical content have
  duplicateOrdinal (\<open>seen\<close>) 0, 1, 2, ... in document order, and a heading whose content
  is new has duplicateOrdinal 0. The code tracks the count with
  \<open>if (!this.seen[text]) this.seen[text] = 0; else this.seen[text]++;\<close>, and the test also
  holds when the stored count is 0, so the count is reset instead of incremented: for
  the document of two headings \<open>## A\<close> the second record has duplicateOrdinal 0, not 1.
  By \<open>seen_never_counts\<close> no record of any document has a positive duplicateOrdinal.
\<close>

theorem C1_second_duplicate_has_ordinal_zero:
  assumes "lexer rt (js ''## A\<newline>## A\<newline>'') =
      [Heading 2 (js ''A'') (Some [Text (js ''A'') None]),
       Heading 2 (js ''A'') (Some [Text (js ''A'') None])]"
  shows "map (\<lambda>h. (content h, seen h)) (json (parse rt no_options (js ''## A\<newline>## A\<newline>'')))
           = [(js ''A'', Num 0), (js ''A'', Num 0)]"
  by (simp add: json_A_A [OF assms])

theorem C1_second_duplicate_has_ordinal_zero_witness:
  "lexer ascii_runtime (js ''## A\<newline>## A\<newline>'') =
      [Heading 2 (js ''A'') (Some [Text (js ''A'') None]),
       Heading 2 (js ''A'') (Some [Text (js ''A'') None])] \<and>
   map (\<lambda>h. (content h, seen h))
     (json (parse ascii_runtime no_options (js ''## A\<newline>## A\<newline>'')))
     = [(js ''A'', Num 0), (js ''A'', Num 0)]"
proof -
  have l: "lexer ascii_runtime (js ''## A\<newline>## A\<newline>'') =
      [Heading 2 (js ''A'') (Some [Text (js ''A'') None]),
       Heading 2 (js ''A'') (Some [Text (js ''A'') None])]"
    by (simp add: ascii_runtime_def atx_lexer_A_A)
  show ?thesis
    using l C1_second_duplicate_has_ordinal_zero [OF l] by simp
qed

lemma slug_from_content_alone:
  "\<forall>h \<in> set (headings (extractHeadings rt opts tokens new_adapter)).
     slug h = slugify rt opts (content h)"
  by (rule extract_invariant
        [where P = "\<lambda>st. \<forall>h \<in> set (headings st). slug h = slugify rt opts (content h)"])
     (simp_all add: record_heading_def new_adapter_def Let_def)

lemma slugify_A_numbered:
  assumes "host_ok rt"
  shows "slugify rt (no_options\<lparr>o_num := Some 1\<rparr>) (js ''A'') = js ''a-1''"
  by (simp add: slugify_ascii [OF assms] no_options_def slug_eval show_int_def
      show_nat.simps [of 1] show_nat.simps [of "Suc 0"])

text \<open>
  Claim C4: parsing \<open>## A\n## A\n\<close> with the default configuration yields two records,
  the first with content \<open>A\<close>, slug \<open>a\<close>, level 2, index 0 and duplicateOrdinal 0, the
  second with content \<open>A\<close>, slug \<open>a-1\<close>, level 2, index 1 and duplicateOrdinal 1: the
  second slug is disambiguated against the earlier collision. The code yields the second
  record with slug \<open>a\<close> and duplicateOrdinal 0. The slugifier ends with
  \<open>if (options.num) str += `-${options.num}`\<close>, which does give \<open>a-1\<close> for the number 1, but
  \<open>processHeadingToken\<close> calls it with the options of the adapter, where nothing stores
  a number: by \<open>slug_from_content_alone\<close> the slug of a record is the slug of its content
  alone, in every document. The duplicateOrdinal is 0 through the reset of the count
  (\<open>seen_never_counts\<close>).
\<close>

theorem C4_repeated_heading_is_not_disambiguated:
  assumes "host_ok rt"
    and "lexer rt (js ''## A\<newline>## A\<newline>'') =
      [Heading 2 (js ''A'') (Some [Text (js ''A'') None]),
       Heading 2 (js ''A'') (Some [Text (js ''A'') None])]"
  shows "json (parse rt no_options (js ''## A\<newline>## A\<newline>'')) =
           [\<lparr>content = js ''A'', slug = js ''a'', lvl = 2, idx = 0, seen = Num 0\<rparr>,
            \<lparr>content = js ''A'', slug = js ''a'', lvl = 2, idx = 1, seen = Num 0\<rparr>] \<and>
         slugify rt (no_options\<lparr>o_num := Some 1\<rparr>) (js ''A'') = js ''a-1''"
  by (simp add: json_A_A [OF assms(2)] slugify_A [OF assms(1)]
      slugify_A_numbered [OF assms(1)])

theorem C4_repeated_heading_is_not_disambiguated_witness:
  "host_ok ascii_runtime \<and>
   lexer ascii_runtime (js ''## A\<newline>## A\<newline>'') =
      [Heading 2 (js ''A'') (Some [Text (js ''A'') None]),
       Heading 2 (js ''A'') (Some [Text (js ''A'') None])] \<and>
   json (parse ascii_runtime no_options (js ''## A\<newline>## A\<newline>'')) =
      [\<lparr>content = js ''A'', slug = js ''a'', lvl = 2, idx = 0, seen = Num 0\<rparr>,
       \<lparr>content = js ''A'', slug = js ''a'', lvl = 2, idx = 1, seen = Num 0\<rparr>] \<and>
   slugify ascii_runtime (no_options\<lparr>o_num := Some 1\<rparr>) (js ''A'') = js ''a-1''"
proof -
  have l: "lexer ascii_runtime (js ''## A\<newline>## A\<newline>'') =
      [Heading 2 (js ''A'') (Some [Text (js ''A'') None]),
       Heading 2 (js ''A'') (Some [Text (js ''A'') None])]"
    by (simp add: ascii_runtime_def atx_lexer_A_A)
  show ?thesis
    using l host_ok_ascii_runtime
      C4_repeated_heading_is_not_disambiguated [OF host_ok_ascii_runtime l]
    by simp
qed

lemma json_A_B:
  assumes "lexer rt (js ''# A\<newline>### B\<newline>'') =
      [Heading 1 (js ''A'') (Some [Text (js ''A'') None]),
       Heading 3 (js ''B'') (Some [Text (js ''B'') None])]"
    and "0 \<le> maxdepth_of (adapter_options options)"
  shows "json (parse rt options (js ''# A\<newline>### B\<newline>'')) =
     processHeadings (adapter_options options)
       [\<lparr>content = js ''A'', slug = slugify rt (adapter_options options) (js ''A''),
         lvl = 1, idx = 0, seen = Num 0\<rparr>,
        \<lparr>content = js ''B'', slug = slugify rt (adapter_options options) (js ''B''),
         lvl = 3, idx = 1, seen = Num 0\<rparr>]"
proof -
  have s1: "seen_get (track_seen Map.empty (js ''A'')) (js ''A'') = Num 0"
    by (simp add: seen_eval)
  have s2: "seen_get (track_seen (track_seen Map.empty (js ''A'')) (js ''B'')) (js ''B'') = Num 0"
    by (simp add: seen_eval)
  have e: "headings (extractHeadings rt (adapter_options options)
      [Heading 1 (js ''A'') (Some [Text (js ''A'') None]),
       Heading 3 (js ''B'') (Some [Text (js ''B'') None])] new_adapter) =
     [\<lparr>content = js ''A'', slug = slugify rt (adapter_options options) (js ''A''),
       lvl = 1, idx = 0, seen = Num 0\<rparr>,
      \<lparr>content = js ''B'', slug = slugify rt (adapter_options options) (js ''B''),
       lvl = 3, idx = 1, seen = Num 0\<rparr>]"
    using extract_two_headings [OF assms(2), where rt = rt and da = 1 and db = 3
        and ta = "js ''A''" and tb = "js ''B''"]
    by (simp only: s1 s2)
  show ?thesis
    unfolding json_parse assms(1) e by (rule refl)
qed

text \<open>
  Claim C2: no heading record of the json list has a level greater than the configured
  maxdepth. The test at the head of \<open>processHeadingToken\<close>, under the comment "Skip
  headings beyond maxdepth", compares its \<open>depth\<close> argument, which is 0 for every token
  of the document, and not the depth of the heading; \<open>generateTOCContent\<close> skips the
  deeper headings again ("already filtered, but double-check"), \<open>generateJSONOutput\<close>
  does not. With maxdepth 1 the document \<open># A\n### B\n\<close> yields a record of level 3.
\<close>

theorem C2_json_keeps_deeper_heading:
  assumes "lexer rt (js ''# A\<newline>### B\<newline>'') =
      [Heading 1 (js ''A'') (Some [Text (js ''A'') None]),
       Heading 3 (js ''B'') (Some [Text (js ''B'') None])]"
  shows "map (\<lambda>h. (content h, lvl h))
           (json (parse rt (no_options\<lparr>o_maxdepth := Some 1\<rparr>) (js ''# A\<newline>### B\<newline>'')))
           = [(js ''A'', 1), (js ''B'', 3)]"
proof -
  have m: "0 \<le> maxdepth_of (adapter_options (no_options\<lparr>o_maxdepth := Some 1\<rparr>))"
    by (simp add: maxdepth_of_def adapter_options_def no_options_def)
  show ?thesis
    unfolding json_A_B [OF assms m]
    by (simp add: processHeadings_def adapter_options_def no_options_def)
qed

theorem C2_json_keeps_deeper_heading_witness:
  "lexer ascii_runtime (js ''# A\<newline>### B\<newline>'') =
      [Heading 1 (js ''A'') (Some [Text (js ''A'') None]),
       Heading 3 (js ''B'') (Some [Text (js ''B'') None])] \<and>
   map (\<lambda>h. (content h, lvl h))
     (json (parse ascii_runtime (no_options\<lparr>o_maxdepth := Some 1\<rparr>)
        (js ''# A\<newline>### B\<newline>'')))
     = [(js ''A'', 1), (js ''B'', 3)]"
proof -
  have l: "lexer ascii_runtime (js ''# A\<newline>### B\<newline>'') =
      [Heading 1 (js ''A'') (Some [Text (js ''A'') None]),
       Heading 3 (js ''B'') (Some [Text (js ''B'') None])]"
    by (simp add: ascii_runtime_def atx_lexer_A_B)
  show ?thesis
    using l C2_json_keeps_deeper_heading [OF l] by simp
qed

text \<open>
  The rendered text of the same call lists the heading \<open>A\<close> alone: the renderer does
  compare the level of each heading with the maximum depth.
\<close>

lemma rendered_text_omits_deeper_heading:
  "toc_content (parse ascii_runtime (no_options\<lparr>o_maxdepth := Some 1\<rparr>)
      (js ''# A\<newline>### B\<newline>'')) = js ''- [A](#a)''"
proof -
  let ?opts = "adapter_options (no_options\<lparr>o_maxdepth := Some 1\<rparr>)"
  have l: "lexer ascii_runtime (js ''# A\<newline>### B\<newline>'') =
      [Heading 1 (js ''A'') (Some [Text (js ''A'') None]),
       Heading 3 (js ''B'') (Some [Text (js ''B'') None])]"
    by (simp add: ascii_runtime_def atx_lexer_A_B)
  have m: "0 \<le> maxdepth_of ?opts"
    by (simp add: maxdepth_of_def adapter_options_def no_options_def)
  have s1: "seen_get (track_seen Map.empty (js ''A'')) (js ''A'') = Num 0"
    by (simp add: seen_eval)
  have s2: "seen_get (track_seen (track_seen Map.empty (js ''A'')) (js ''B'')) (js ''B'') = Num 0"
    by (simp add: seen_eval)
  have a: "slugify ascii_runtime ?opts (js ''A'') = js ''a''"
    by (simp add: slugify_ascii [OF host_ok_ascii_runtime] no_options_def adapter_options_def
        slug_eval)
  have b: "slugify ascii_runtime ?opts (js ''B'') = js ''b''"
    by (simp add: slugify_ascii [OF host_ok_ascii_runtime] no_options_def adapter_options_def
        slug_eval)
  have e: "headings (extractHeadings ascii_runtime ?opts
      [Heading 1 (js ''A'') (Some [Text (js ''A'') None]),
       Heading 3 (js ''B'') (Some [Text (js ''B'') None])] new_adapter) =
     [\<lparr>content = js ''A'', slug = js ''a'', lvl = 1, idx = 0, seen = Num 0\<rparr>,
      \<lparr>content = js ''B'', slug = js ''b'', lvl = 3, idx = 1, seen = Num 0\<rparr>]"
    using extract_two_headings [OF m, where rt = ascii_runtime and da = 1 and db = 3
        and ta = "js ''A''" and tb = "js ''B''"]
    by (simp only: s1 s2 a b)
  have p: "processHeadings ?opts hs = hs" for hs
    by (simp add: processHeadings_def adapter_options_def no_options_def)
  have g: "generateTOCContent ?opts
     [\<lparr>content = js ''A'', slug = js ''a'', lvl = 1, idx = 0, seen = Num 0\<rparr>,
      \<lparr>content = js ''B'', slug = js ''b'', lvl = 3, idx = 1, seen = Num 0\<rparr>]
     = js ''- [A](#a)''"
    by (simp add: render_eval)
  show ?thesis
    unfolding parse_def Let_def l e p g by simp
qed






section \<open>The marker pattern\<close>

lemma js_append: "js (a @ b) = js a @ js b"
  by (simp add: js_def)

lemma prefix_append_other:
  "c \<notin> set p \<Longrightarrow> prefix p (a @ c # y) \<longleftrightarrow> prefix p a"
proof (induction p arbitrary: a)
  case Nil
  then show ?case by simp
next
  case (Cons x p)
  then show ?case by (cases a) auto
qed

lemma re_marker_toc:
  "re_marker (js ''<!-- toc'' @ r) =
     (if prefix (js ''stop'') (dropWhile is_space r) \<and>
         prefix (js '' -->'') (drop 4 (dropWhile is_space r))
      then Some (8 + (length r - length (dropWhile is_space r)) + 8)
      else if prefix (js '' -->'') r then Some 12 else None)"
proof -
  have "length (js ''<!-- toc'') = 8"
    by (simp add: js_def)
  then show ?thesis
    by (simp add: re_marker_def Let_def)
qed

lemma re_marker_stop:
  assumes "\<forall>c \<in> set ws. is_space c"
  shows "re_marker (js ''<!-- toc'' @ ws @ js ''stop -->'' @ rest) = Some (16 + length ws)"
proof -
  have d: "dropWhile is_space (ws @ js ''stop -->'' @ rest) = js ''stop -->'' @ rest"
    using assms by (simp add: dropWhile_append2 js_def is_space_def)
  show ?thesis
    unfolding re_marker_toc d by (simp add: js_def)
qed

lemma re_marker_plain:
  "re_marker (js ''<!-- toc -->'' @ rest) = Some 12"
  by (simp add: re_marker_def js_def is_space_def)

lemma re_marker_SomeD:
  assumes "re_marker s = Some n"
  shows "(\<exists>ws rest. (\<forall>c \<in> set ws. is_space c) \<and>
            s = js ''<!-- toc'' @ ws @ js ''stop -->'' @ rest \<and> n = 16 + length ws)
         \<or> (\<exists>rest. s = js ''<!-- toc -->'' @ rest \<and> n = 12)"
proof -
  from assms have p: "prefix (js ''<!-- toc'') s"
    by (simp add: re_marker_def split: if_splits)
  then obtain r where s: "s = js ''<!-- toc'' @ r"
    by (auto elim: prefixE)
  have r: "drop 8 s = r"
    by (simp add: s js_def)
  let ?r' = "dropWhile is_space r"
  show ?thesis
  proof (cases "prefix (js ''stop'') ?r' \<and> prefix (js '' -->'') (drop 4 ?r')")
    case True
    then obtain r2 where r2: "?r' = js ''stop'' @ r2"
      by (auto elim: prefixE)
    then have "drop 4 ?r' = r2"
      by (simp add: js_def)
    with True obtain rest where rest: "r2 = js '' -->'' @ rest"
      by (auto elim: prefixE)
    have split: "r = takeWhile is_space r @ js ''stop -->'' @ rest"
      using takeWhile_dropWhile_id [of is_space r] r2 rest by (simp add: js_def)
    have n: "n = 16 + length (takeWhile is_space r)"
    proof -
      have "length r - length ?r' = length (takeWhile is_space r)"
        using takeWhile_dropWhile_id [of is_space r]
        by (metis add_diff_cancel_right' length_append)
      then show ?thesis
        using assms p True by (simp add: re_marker_def r Let_def)
    qed
    have "\<forall>c \<in> set (takeWhile is_space r). is_space c"
      by (auto dest: set_takeWhileD)
    then show ?thesis
      using s split n by metis
  next
    case False
    then have "prefix (js '' -->'') r \<and> n = 12"
      using assms p by (auto simp: re_marker_def r Let_def split: if_splits)
    then obtain rest where "r = js '' -->'' @ rest" "n = 12"
      by (auto elim: prefixE)
    then show ?thesis
      using s by (auto simp: js_def)
  qed
qed


lemma re_marker_bounds:
  assumes "re_marker s = Some n"
  shows "12 \<le> n" and "n \<le> length s"
  using re_marker_SomeD [OF assms] by (auto simp: js_def)

lemma re_marker_hd:
  assumes "re_marker s = Some n"
  shows "\<exists>t. s = 0x3C # t"
  using re_marker_SomeD [OF assms] by (auto simp: js_def)

lemma re_marker_Nil [simp]: "re_marker [] = None"
  by (simp add: re_marker_def js_def)

lemma re_marker_extend:
  assumes "re_marker s = Some n"
  shows "re_marker (s @ z) = Some n"
  using re_marker_SomeD [OF assms]
proof (elim disjE exE conjE)
  fix ws rest
  assume "\<forall>c \<in> set ws. is_space c" "s = js ''<!-- toc'' @ ws @ js ''stop -->'' @ rest"
    "n = 16 + length ws"
  then show ?thesis
    using re_marker_stop [of ws "rest @ z"] by simp
next
  fix rest
  assume "s = js ''<!-- toc -->'' @ rest" "n = 12"
  then show ?thesis
    using re_marker_plain [of "rest @ z"] by simp
qed

lemma re_marker_truncate:
  assumes "re_marker s = Some n"
  shows "re_marker (take n s) = Some n"
  using re_marker_SomeD [OF assms]
proof (elim disjE exE conjE)
  fix ws rest
  assume a: "\<forall>c \<in> set ws. is_space c" "s = js ''<!-- toc'' @ ws @ js ''stop -->'' @ rest"
    "n = 16 + length ws"
  have l: "length (js ''<!-- toc'' @ ws @ js ''stop -->'') = n"
    using a(3) by (simp add: js_def)
  have "s = (js ''<!-- toc'' @ ws @ js ''stop -->'') @ rest"
    using a(2) by simp
  then have "take n s = js ''<!-- toc'' @ ws @ js ''stop -->''"
    using l by (metis append_eq_conv_conj)
  then show ?thesis
    using re_marker_stop [OF a(1), of "[]"] a(3) by simp
next
  fix rest
  assume "s = js ''<!-- toc -->'' @ rest" "n = 12"
  then have "take n s = js ''<!-- toc -->'' @ []"
    by (simp add: js_def)
  then show ?thesis
    using re_marker_plain [of "[]"] \<open>n = 12\<close> by simp
qed

lemma re_marker_last:
  assumes "re_marker s = Some n"
  shows "s ! (n - 1) = 0x3E"
  using re_marker_SomeD [OF assms]
  by (auto simp: js_def nth_append nth_Cons split: nat.splits)

lemma dropWhile_append_stop:
  "\<not> P c \<Longrightarrow> dropWhile P (r @ c # y) = dropWhile P r @ c # y"
  by (induction r) auto

lemma re_marker_local:
  assumes "a \<noteq> []"
  shows "re_marker (a @ 0x3C # y) = re_marker a"
proof (cases "prefix (js ''<!-- toc'') a")
  case False
  obtain a0 a' where a: "a = a0 # a'"
    using assms by (cases a) auto
  have "\<not> prefix (js ''<!-- toc'') (a @ 0x3C # y)"
    using False unfolding a by (simp add: js_def prefix_append_other)
  then show ?thesis
    using False by (simp add: re_marker_def)
next
  case True
  then obtain r where a: "a = js ''<!-- toc'' @ r"
    by (auto elim: prefixE)
  have lt: "\<not> is_space 0x3C"
    by (simp add: is_space_def)
  let ?r' = "dropWhile is_space r"
  have d: "dropWhile is_space (r @ 0x3C # y) = ?r' @ 0x3C # y"
    using lt by (rule dropWhile_append_stop)
  have p1: "prefix (js ''stop'') (?r' @ 0x3C # y) \<longleftrightarrow> prefix (js ''stop'') ?r'"
    by (rule prefix_append_other) (simp add: js_def)
  have p2: "prefix (js '' -->'') (drop 4 (?r' @ 0x3C # y)) \<longleftrightarrow> prefix (js '' -->'') (drop 4 ?r')"
    if "prefix (js ''stop'') ?r'"
  proof -
    from that obtain r2 where "?r' = js ''stop'' @ r2"
      by (auto elim: prefixE)
    then have "drop 4 (?r' @ 0x3C # y) = drop 4 ?r' @ 0x3C # y"
      by (simp add: js_def)
    then show ?thesis
      by (simp add: prefix_append_other js_def)
  qed
  have p3: "prefix (js '' -->'') (r @ 0x3C # y) \<longleftrightarrow> prefix (js '' -->'') r"
    by (rule prefix_append_other) (simp add: js_def)
  have len: "length (r @ 0x3C # y) - length (?r' @ 0x3C # y) = length r - length ?r'"
    by simp
  have "re_marker (js ''<!-- toc'' @ r @ 0x3C # y) = re_marker (js ''<!-- toc'' @ r)"
    unfolding re_marker_toc d len p1 p3 using p2 by auto
  then show ?thesis
    by (simp add: a)
qed

lemma has_marker_iff: "has_marker s \<longleftrightarrow> (\<exists>i. re_marker (drop i s) \<noteq> None)"
proof (induction s)
  case Nil
  then show ?case by simp
next
  case (Cons c cs)
  show ?case
  proof (cases "re_marker (c # cs)")
    case None
    have "(\<exists>i. re_marker (drop i (c # cs)) \<noteq> None) \<longleftrightarrow> (\<exists>i. re_marker (drop i cs) \<noteq> None)"
    proof
      assume "\<exists>i. re_marker (drop i (c # cs)) \<noteq> None"
      then obtain i where i: "re_marker (drop i (c # cs)) \<noteq> None" by blast
      then have "i \<noteq> 0" using None by (cases i) auto
      then obtain j where "i = Suc j" by (cases i) auto
      then show "\<exists>i. re_marker (drop i cs) \<noteq> None" using i by auto
    next
      assume "\<exists>i. re_marker (drop i cs) \<noteq> None"
      then obtain i where "re_marker (drop (Suc i) (c # cs)) \<noteq> None" by auto
      then show "\<exists>i. re_marker (drop i (c # cs)) \<noteq> None" by blast
    qed
    then show ?thesis using None Cons by simp
  next
    case (Some n)
    then have "re_marker (drop 0 (c # cs)) \<noteq> None" by simp
    then have "\<exists>i. re_marker (drop i (c # cs)) \<noteq> None" by (rule exI)
    then show ?thesis using Some by simp
  qed
qed


section \<open>Splitting\<close>

lemma split_loop_skip:
  "\<forall>i<length a. re (drop i a @ X) = None \<Longrightarrow>
     split_loop re acc (a @ X) = split_loop re (acc @ a) X"
proof (induction a arbitrary: acc)
  case Nil
  then show ?case by simp
next
  case (Cons c cs)
  have "re (drop 0 (c # cs) @ X) = None"
    using Cons.prems by blast
  then have 0: "re (c # cs @ X) = None"
    by simp
  have "\<forall>i<length cs. re (drop i cs @ X) = None"
  proof (intro allI impI)
    fix i assume "i < length cs"
    then have "re (drop (Suc i) (c # cs) @ X) = None"
      using Cons.prems by (metis Suc_less_eq length_Cons)
    then show "re (drop i cs @ X) = None" by simp
  qed
  then have "split_loop re (acc @ [c]) (cs @ X) = split_loop re ((acc @ [c]) @ cs) X"
    by (rule Cons.IH)
  then show ?case
    using 0 by simp
qed


lemma not_has_marker_iff: "\<not> has_marker s \<longleftrightarrow> (\<forall>i. re_marker (drop i s) = None)"
  by (simp add: has_marker_iff)

lemma split_loop_free_marker:
  assumes "\<not> has_marker a"
  shows "split_loop re_marker acc (a @ 0x3C # y) = split_loop re_marker (acc @ a) (0x3C # y)"
proof (rule split_loop_skip, intro allI impI)
  fix i assume "i < length a"
  then have "drop i a \<noteq> []" by simp
  then have "re_marker (drop i a @ 0x3C # y) = re_marker (drop i a)"
    by (rule re_marker_local)
  then show "re_marker (drop i a @ 0x3C # y) = None"
    using assms by (simp add: not_has_marker_iff)
qed

lemma split_loop_free_end:
  assumes "\<not> has_marker a"
  shows "split_loop re_marker acc a = [acc @ a]"
proof -
  have "\<forall>i<length a. re_marker (drop i a @ []) = None"
    using assms by (simp add: not_has_marker_iff)
  then have "split_loop re_marker acc (a @ []) = split_loop re_marker (acc @ a) []"
    by (rule split_loop_skip)
  then show ?thesis by simp
qed


lemma split_loop_nonempty: "split_loop re acc s \<noteq> []"
  by (induction re acc s rule: split_loop.induct) (auto split: option.splits)

lemma split_loop_segments_free:
  "\<forall>i<length acc. re_marker (drop i acc @ s) = None
     \<Longrightarrow> \<forall>u \<in> set (split_loop re_marker acc s). \<not> has_marker u"
proof (induction re_marker acc s rule: split_loop.induct)
  case (1 acc)
  then show ?case by (simp add: not_has_marker_iff) (metis drop_all linorder_not_less re_marker_Nil)
next
  case (2 acc c cs)
  show ?case
  proof (cases "re_marker (c # cs)")
    case None
    have "\<forall>i<length (acc @ [c]). re_marker (drop i (acc @ [c]) @ cs) = None"
    proof (intro allI impI)
      fix i assume "i < length (acc @ [c])"
      then consider "i < length acc" | "i = length acc" by fastforce
      then show "re_marker (drop i (acc @ [c]) @ cs) = None"
      proof cases
        case 1
        then show ?thesis using "2.prems" by simp
      next
        case 2
        then show ?thesis using None by simp
      qed
    qed
    then show ?thesis
      using None "2.hyps"(1) by simp
  next
    case (Some n)
    have n: "n \<noteq> 0"
      using re_marker_bounds(1) [OF Some] by simp
    have "\<not> has_marker acc"
      unfolding not_has_marker_iff
    proof
      fix i
      show "re_marker (drop i acc) = None"
      proof (cases "i < length acc")
        case True
        then have "re_marker (drop i acc @ c # cs) = None"
          using "2.prems" by blast
        then show ?thesis
          using re_marker_extend [of "drop i acc" _ "c # cs"] by (cases "re_marker (drop i acc)") auto
      next
        case False
        then show ?thesis by simp
      qed
    qed
    moreover have "\<forall>u \<in> set (split_loop re_marker [] (drop n (c # cs))). \<not> has_marker u"
      using "2.hyps" Some n by simp
    ultimately show ?thesis
      using Some n by simp
  qed
qed

lemma split_re_segments_free:
  "u \<in> set (split_re s re_marker) \<Longrightarrow> \<not> has_marker u"
  using split_loop_segments_free [of "[]" s]
  by (auto simp: split_re_def split: if_splits)


section \<open>Trimming and marker-free text\<close>

lemma trim_decompose:
  "\<exists>w1 w2. (\<forall>c \<in> set w1. is_space c) \<and> (\<forall>c \<in> set w2. is_space c) \<and> s = w1 @ trim s @ w2"
proof -
  let ?r = "dropWhile is_space s"
  have 1: "s = takeWhile is_space s @ ?r"
    by simp
  have "rev ?r = takeWhile is_space (rev ?r) @ dropWhile is_space (rev ?r)"
    by simp
  then have "?r = rev (dropWhile is_space (rev ?r)) @ rev (takeWhile is_space (rev ?r))"
    by (metis rev_append rev_rev_ident)
  then have 2: "?r = trim s @ rev (takeWhile is_space (rev ?r))"
    by (simp add: trim_def)
  have a: "\<forall>c \<in> set (takeWhile is_space s). is_space c"
    by (auto dest: set_takeWhileD)
  have b: "\<forall>c \<in> set (rev (takeWhile is_space (rev ?r))). is_space c"
    by (auto dest: set_takeWhileD)
  show ?thesis
    using 1 2 a b by metis
qed

lemma trim_ends:
  assumes "trim s \<noteq> []"
  shows "\<not> is_space (hd (trim s))" and "\<not> is_space (last (trim s))"
proof -
  let ?r = "dropWhile is_space s"
  let ?d = "dropWhile is_space (rev ?r)"
  have d: "?d \<noteq> []"
    using assms by (simp add: trim_def)
  then have "\<not> is_space (hd ?d)"
    by (rule hd_dropWhile)
  then show "\<not> is_space (last (trim s))"
    using d by (simp add: trim_def last_rev)
  have r: "?r \<noteq> []"
  proof
    assume "?r = []"
    then have "?d = []" by (metis dropWhile.simps(1) rev.simps(1))
    with d show False ..
  qed
  then have h: "\<not> is_space (hd ?r)"
    by (rule hd_dropWhile)
  have "rev ?r = takeWhile is_space (rev ?r) @ ?d"
    by simp
  then have "last (rev ?r) = last ?d"
    using d by (metis last_appendR)
  then have "hd ?r = last ?d"
    using r by (simp add: last_rev)
  then show "\<not> is_space (hd (trim s))"
    using h d by (simp add: trim_def hd_rev)
qed

lemma trim_padded:
  assumes "t = [] \<or> (\<not> is_space (hd t) \<and> \<not> is_space (last t))"
    and "\<forall>c \<in> set w1. is_space c" and "\<forall>c \<in> set w2. is_space c"
  shows "trim (w1 @ t @ w2) = t"
proof (cases "t = []")
  case True
  have e: "dropWhile is_space (w1 @ w2) = []"
    using assms(2,3) by simp
  show ?thesis
    by (simp only: True trim_def append_Nil e rev.simps dropWhile.simps)
next
  case False
  then obtain h t' where t: "t = h # t'" "\<not> is_space h"
    using assms(1) by (cases t) auto
  have 1: "dropWhile is_space (w1 @ t @ w2) = t @ w2"
    using assms(2) t by (simp add: dropWhile_append2)
  obtain l t'' where t2: "rev t = l # t''" "\<not> is_space l"
    using assms(1) False by (cases "rev t") (auto simp: last_rev [symmetric] hd_rev)
  have "dropWhile is_space (rev w2 @ rev t) = dropWhile is_space (rev t)"
    using assms(3) by (intro dropWhile_append2) simp
  then have "dropWhile is_space (rev w2 @ rev t) = rev t"
    using t2 by simp
  then show ?thesis
    by (simp add: trim_def 1)
qed

lemma trim_trim_padded:
  assumes "\<forall>c \<in> set w1. is_space c" and "\<forall>c \<in> set w2. is_space c"
  shows "trim (w1 @ trim s @ w2) = trim s"
  using trim_padded [OF _ assms, of "trim s"] trim_ends [of s] by blast

lemma not_has_marker_sublist:
  assumes "\<not> has_marker (u @ v @ w)"
  shows "\<not> has_marker v"
  unfolding not_has_marker_iff
proof
  fix i
  show "re_marker (drop i v) = None"
  proof (cases "re_marker (drop i v)")
    case (Some n)
    then have "i < length v"
      by (cases "i < length v") auto
    have "re_marker (drop i v @ w) = Some n"
      using Some by (rule re_marker_extend)
    moreover have "drop (length u + i) (u @ v @ w) = drop i v @ w"
      using \<open>i < length v\<close> by simp
    moreover have "re_marker (drop (length u + i) (u @ v @ w)) = None"
      using assms unfolding not_has_marker_iff by blast
    ultimately show ?thesis
      by simp
  qed simp
qed

lemma not_has_marker_trim: "\<not> has_marker s \<Longrightarrow> \<not> has_marker (trim s)"
  using trim_decompose [of s] not_has_marker_sublist by metis

lemma not_has_marker_append:
  assumes "\<not> has_marker a" and "0x3E \<notin> set w"
  shows "\<not> has_marker (a @ w)"
  unfolding not_has_marker_iff
proof
  fix i
  define x where "x = drop i a"
  define z where "z = drop (i - length a) w"
  have s: "drop i (a @ w) = x @ z"
    by (simp add: x_def z_def)
  have z: "0x3E \<notin> set z"
    using assms(2) unfolding z_def by (meson in_set_dropD)
  show "re_marker (drop i (a @ w)) = None"
  proof (cases "re_marker (x @ z)")
    case (Some n)
    have n: "12 \<le> n" "n \<le> length (x @ z)"
      using re_marker_bounds [OF Some] by auto
    have gt: "(x @ z) ! (n - 1) = 0x3E"
      using Some by (rule re_marker_last)
    have "n \<le> length x"
    proof (rule ccontr)
      assume c: "\<not> n \<le> length x"
      then have k: "\<not> n - 1 < length x"
        using n by arith
      have "(x @ z) ! (n - 1) = z ! (n - 1 - length x)"
        by (simp only: nth_append k if_False)
      moreover have "n - 1 - length x < length z"
        using n c by simp
      ultimately have "0x3E \<in> set z"
        using gt by (metis nth_mem)
      then show False
        using z by simp
    qed
    then have t: "take n (x @ z) = take n x"
      by simp
    have "re_marker (take n x) = Some n"
      using re_marker_truncate [OF Some] unfolding t .
    then have "re_marker (take n x @ drop n x) = Some n"
      by (rule re_marker_extend)
    then have "re_marker x = Some n"
      by (simp only: append_take_drop_id)
    then have "re_marker (drop i a) = Some n"
      by (simp only: x_def)
    then show ?thesis
      using assms(1) unfolding not_has_marker_iff by simp
  qed (simp only: s)
qed

lemma not_has_marker_prepend:
  assumes "\<not> has_marker a" and "0x3C \<notin> set w"
  shows "\<not> has_marker (w @ a)"
  using assms
proof (induction w)
  case Nil
  then show ?case by simp
next
  case (Cons c w)
  have "re_marker (c # w @ a) = None"
  proof (cases "re_marker (c # w @ a)")
    case (Some n)
    then show ?thesis
      using re_marker_hd [OF Some] Cons.prems(2) by simp
  qed simp
  then show ?case
    using Cons by simp
qed

lemma no_lt_no_marker: "0x3C \<notin> set s \<Longrightarrow> \<not> has_marker s"
  using not_has_marker_prepend [of "[]" s] by simp

lemma trailing_newlines_all: "\<forall>c \<in> set (trailing_newlines s). c = 0xA"
  by (auto simp: trailing_newlines_def dest: set_takeWhileD)

lemma trailing_newlines_append:
  assumes "q \<noteq> []" and "last q \<noteq> 0xA" and "\<forall>c \<in> set nl. c = 0xA"
  shows "trailing_newlines (x @ q @ nl) = nl"
proof -
  obtain l q' where q: "rev q = l # q'" "l \<noteq> 0xA"
    using assms(1,2) by (cases "rev q") (auto simp: last_rev [symmetric] hd_rev)
  have "takeWhile (\<lambda>c. c = 0xA) (rev nl @ l # q' @ rev x) = takeWhile (\<lambda>c. c = 0xA) (rev nl)"
    using q(2) by (rule takeWhile_tail)
  moreover have "takeWhile (\<lambda>c. c = 0xA) (rev nl) = rev nl"
    using assms(3) by (simp add: takeWhile_eq_all_conv)
  ultimately have "takeWhile (\<lambda>c. c = 0xA) (rev nl @ rev q @ rev x) = rev nl"
    using q(1) by simp
  then show ?thesis
    by (simp add: trailing_newlines_def)
qed


section \<open>Splicing\<close>



lemma toc_marker_Cons: "js ''<!-- toc -->'' = 0x3C # js ''!-- toc -->''"
  by (simp add: js_def)

lemma re_marker_plain_Cons:
  "re_marker (0x3C # js ''!-- toc -->'' @ b) = Some (Suc (length (js ''!-- toc -->'')))"
  using re_marker_plain [of b] by (simp add: js_def)


lemma split_loop_match_Cons:
  assumes "re (c # m @ X) = Some (Suc (length m))"
  shows "split_loop re acc (c # m @ X) = acc # split_loop re [] X"
  using assms by simp

lemma split_re_three:
  assumes "\<not> has_marker a" and "\<not> has_marker b" and "\<not> has_marker c"
    and "re_marker (0x3C # M1 @ b @ 0x3C # M2 @ c) = Some (Suc (length M1))"
    and "re_marker (0x3C # M2 @ c) = Some (Suc (length M2))"
  shows "split_re (a @ 0x3C # M1 @ b @ 0x3C # M2 @ c) re_marker = [a, b, c]"
proof -
  have s1: "split_loop re_marker [] (a @ 0x3C # M1 @ b @ 0x3C # M2 @ c)
      = split_loop re_marker a (0x3C # M1 @ b @ 0x3C # M2 @ c)"
    using split_loop_free_marker [OF assms(1), of "[]" "M1 @ b @ 0x3C # M2 @ c"]
    by (simp only: append_Nil)
  have s2: "split_loop re_marker a (0x3C # M1 @ b @ 0x3C # M2 @ c)
      = a # split_loop re_marker [] (b @ 0x3C # M2 @ c)"
    using assms(4) by (rule split_loop_match_Cons)
  have s3: "split_loop re_marker [] (b @ 0x3C # M2 @ c) = split_loop re_marker b (0x3C # M2 @ c)"
    using split_loop_free_marker [OF assms(2), of "[]" "M2 @ c"]
    by (simp only: append_Nil)
  have s4: "split_loop re_marker b (0x3C # M2 @ c) = b # split_loop re_marker [] c"
    using assms(5) by (rule split_loop_match_Cons)
  have s5: "split_loop re_marker [] c = [c]"
    using split_loop_free_end [OF assms(3), of "[]"] by (simp only: append_Nil)
  have ne: "(a @ 0x3C # M1 @ b @ 0x3C # M2 @ c = []) = False"
    by simp
  show ?thesis
    by (simp only: split_re_def ne if_False s1 s2 s3 s4 s5)
qed


lemma marker_regex_default: "o_regex options = None \<Longrightarrow> marker_regex options = re_marker"
  by (simp add: marker_regex_def)

lemma tocstop_marker_Cons:
  "js ''<!-- tocstop -->'' = 0x3C # js ''!-- tocstop -->''"
  by (simp add: js_def)

lemma re_marker_tocstop_Cons:
  "re_marker (0x3C # js ''!-- tocstop -->'' @ b) = Some (Suc (length (js ''!-- tocstop -->'')))"
proof -
  have "js ''<!-- toc'' @ [] @ js ''stop -->'' @ b = 0x3C # js ''!-- tocstop -->'' @ b"
    by (simp add: js_def)
  then show ?thesis
    using re_marker_stop [of "[]" b] by (simp add: js_def)
qed

lemma split_loop_append_lt:
  "split_loop re_marker acc (a @ 0x3C # y) =
     butlast (split_loop re_marker acc a)
       @ split_loop re_marker (last (split_loop re_marker acc a)) (0x3C # y)"
proof (induction re_marker acc a rule: split_loop.induct)
  case (1 acc)
  show ?case by simp
next
  case (2 acc c cs)
  have loc: "re_marker (c # cs @ 0x3C # y) = re_marker (c # cs)"
    using re_marker_local [of "c # cs" y] by simp
  show ?case
  proof (cases "re_marker (c # cs)")
    case None
    then show ?thesis
      using "2.hyps"(1) loc by simp
  next
    case (Some n)
    have n: "12 \<le> n" "n \<le> length (c # cs)"
      using re_marker_bounds [OF Some] by auto
    then have n0: "n \<noteq> 0"
      by simp
    have g: "drop n (x @ z) = drop n x @ z" if "n \<le> length x" for x z :: jsstring
      using that by simp
    have d: "drop n (c # cs @ 0x3C # y) = drop n (c # cs) @ 0x3C # y"
      using g [OF n(2), of "0x3C # y"] by (simp only: append_Cons)
    have ih: "split_loop re_marker [] (drop n (c # cs) @ 0x3C # y) =
        butlast (split_loop re_marker [] (drop n (c # cs)))
          @ split_loop re_marker (last (split_loop re_marker [] (drop n (c # cs)))) (0x3C # y)"
      using "2.hyps"(3) [OF Some] n0 by simp
    have l: "split_loop re_marker acc (c # cs @ 0x3C # y)
        = acc # split_loop re_marker [] (drop n (c # cs) @ 0x3C # y)"
      using loc Some n0 d by simp
    have r: "split_loop re_marker acc (c # cs) = acc # split_loop re_marker [] (drop n (c # cs))"
      using Some n0 by simp
    show ?thesis
      unfolding append_Cons l r ih
      by (simp add: split_loop_nonempty)
  qed
qed

lemma split_loop_concat:
  assumes "re_marker (0x3C # M @ b) = Some (Suc (length M))"
  shows "split_loop re_marker [] (a @ 0x3C # M @ b)
       = split_loop re_marker [] a @ split_loop re_marker [] b"
proof -
  let ?S = "split_loop re_marker [] a"
  have "split_loop re_marker [] (a @ 0x3C # M @ b)
      = butlast ?S @ split_loop re_marker (last ?S) (0x3C # M @ b)"
    by (rule split_loop_append_lt)
  also have "split_loop re_marker (last ?S) (0x3C # M @ b) = last ?S # split_loop re_marker [] b"
    using assms by (rule split_loop_match_Cons)
  finally show ?thesis
    using split_loop_nonempty [of re_marker "[]" a] by simp
qed

lemma split_re_marker_loop: "split_re s re_marker = split_loop re_marker [] s"
  by (simp add: split_re_def)

lemma split_sections_concat:
  assumes "re_marker (0x3C # M @ b) = Some (Suc (length M))"
  shows "split_sections (a @ 0x3C # M @ b) re_marker
       = split_sections a re_marker @ split_sections b re_marker"
  by (simp add: split_sections_def split_re_marker_loop split_loop_concat [OF assms])

lemma split_sections_free:
  assumes "\<not> has_marker a"
  shows "split_sections a re_marker = [trim a]"
  using split_loop_free_end [OF assms, of "[]"]
  by (simp add: split_sections_def split_re_marker_loop)

lemma split_sections_nonempty: "split_sections s re_marker \<noteq> []"
  by (simp add: split_sections_def split_re_marker_loop split_loop_nonempty)

lemma variant_Cons:
  "js ''<!-- toc'' @ ws @ js ''stop -->'' @ b = 0x3C # (js ''!-- toc'' @ ws @ js ''stop -->'') @ b"
  by (simp add: js_def)

lemma re_marker_variant_Cons:
  assumes "\<forall>c \<in> set ws. is_space c"
  shows "re_marker (0x3C # (js ''!-- toc'' @ ws @ js ''stop -->'') @ b)
       = Some (Suc (length (js ''!-- toc'' @ ws @ js ''stop -->'')))"
  using re_marker_stop [OF assms, of b] unfolding variant_Cons by (simp add: js_def)

text \<open>
  Claim C10: the default marker pattern of \<open>insert\<close> treats a comment
  \<open><!-- toc stop -->\<close>, with any run of white space (also none) between \<open>toc\<close> and
  \<open>stop\<close>, as a marker like \<open><!-- toc -->\<close> and \<open><!-- tocstop -->\<close>: every such variant in
  the body is consumed by the split and counts toward the number of sections. The pattern
  matches the whole variant. The sections of a document with the variant are the sections
  of the text before it followed by the sections of the text after it, so the variant is
  in no section and adds one to their number; between two texts without a marker the
  sections are the two texts, trimmed. Three variants make more than 3 sections. The
  sections are those of the document with \<open><!-- toc -->\<close> or \<open><!-- tocstop -->\<close> in the
  place of the variant.
\<close>

theorem C10_toc_stop_variants_are_markers:
  assumes "\<forall>c \<in> set ws. is_space c"
  shows "marker_regex no_options (js ''<!-- toc'' @ ws @ js ''stop -->'' @ b)
           = Some (length (js ''<!-- toc'' @ ws @ js ''stop -->'')) \<and>
         split_sections (a @ js ''<!-- toc'' @ ws @ js ''stop -->'' @ b) (marker_regex no_options)
           = split_sections a (marker_regex no_options)
               @ split_sections b (marker_regex no_options) \<and>
         (\<not> has_marker a \<and> \<not> has_marker b \<longrightarrow>
            split_sections (a @ js ''<!-- toc'' @ ws @ js ''stop -->'' @ b)
              (marker_regex no_options) = [trim a, trim b]) \<and>
         3 < length (split_sections
               (a @ js ''<!-- toc'' @ ws @ js ''stop -->'' @ b
                  @ js ''<!-- toc'' @ ws @ js ''stop -->'' @ c
                  @ js ''<!-- toc'' @ ws @ js ''stop -->'' @ d) (marker_regex no_options)) \<and>
         split_sections (a @ js ''<!-- toc'' @ ws @ js ''stop -->'' @ b) (marker_regex no_options)
           = split_sections (a @ js ''<!-- toc -->'' @ b) (marker_regex no_options) \<and>
         split_sections (a @ js ''<!-- toc'' @ ws @ js ''stop -->'' @ b) (marker_regex no_options)
           = split_sections (a @ js ''<!-- tocstop -->'' @ b) (marker_regex no_options)"
proof -
  let ?V = "js ''!-- toc'' @ ws @ js ''stop -->''"
  have r: "marker_regex no_options = re_marker"
    by (simp add: marker_regex_def no_options_def)
  have 1: "re_marker (js ''<!-- toc'' @ ws @ js ''stop -->'' @ b)
      = Some (length (js ''<!-- toc'' @ ws @ js ''stop -->''))"
    using re_marker_stop [OF assms, of b] by (simp add: js_def)
  have cat: "split_sections (x @ js ''<!-- toc'' @ ws @ js ''stop -->'' @ y) re_marker
      = split_sections x re_marker @ split_sections y re_marker" for x y
    unfolding variant_Cons
    by (rule split_sections_concat) (rule re_marker_variant_Cons [OF assms])
  have 3: "split_sections (a @ js ''<!-- toc'' @ ws @ js ''stop -->'' @ b) re_marker
      = [trim a, trim b]" if "\<not> has_marker a \<and> \<not> has_marker b"
    using that by (simp add: cat split_sections_free)
  have ne: "1 \<le> length (split_sections x re_marker)" for x
    using split_sections_nonempty [of x] by (cases "split_sections x re_marker") auto
  have 4: "3 < length (split_sections
               (a @ js ''<!-- toc'' @ ws @ js ''stop -->'' @ b
                  @ js ''<!-- toc'' @ ws @ js ''stop -->'' @ c
                  @ js ''<!-- toc'' @ ws @ js ''stop -->'' @ d) re_marker)"
    using ne [of a] ne [of b] ne [of c] ne [of d] by (simp add: cat)
  have p: "split_sections (a @ js ''<!-- toc -->'' @ b) re_marker
      = split_sections a re_marker @ split_sections b re_marker"
    unfolding toc_marker_Cons append_Cons
    by (rule split_sections_concat) (rule re_marker_plain_Cons)
  have q: "split_sections (a @ js ''<!-- tocstop -->'' @ b) re_marker
      = split_sections a re_marker @ split_sections b re_marker"
    unfolding tocstop_marker_Cons append_Cons
    by (rule split_sections_concat) (rule re_marker_tocstop_Cons)
  show ?thesis
    unfolding r using 1 cat [of a b] 3 4 p q by simp
qed

theorem C10_toc_stop_variants_are_markers_witness:
  "is_space 0x20 \<and> is_space 0x9 \<and>
   \<not> has_marker (js ''a\<newline>'') \<and> \<not> has_marker (js ''\<newline>x'') \<and>
   marker_regex no_options (js ''<!-- toc'' @ [0x20, 0x9] @ js ''stop -->'' @ js ''\<newline>x'') = Some 18 \<and>
   split_sections (js ''a\<newline>'' @ js ''<!-- toc'' @ [0x20, 0x9] @ js ''stop -->'' @ js ''\<newline>x'')
       (marker_regex no_options) = [js ''a'', js ''x'']"
proof -
  have w: "\<forall>c \<in> set [0x20, 0x9]. is_space c"
    by (simp add: is_space_def)
  have l: "length (js ''<!-- toc'' @ [0x20, 0x9] @ js ''stop -->'') = 18"
    by (simp add: js_def)
  have fa: "\<not> has_marker (js ''a\<newline>'')"
    by (rule no_lt_no_marker) (simp add: js_def)
  have fb: "\<not> has_marker (js ''\<newline>x'')"
    by (rule no_lt_no_marker) (simp add: js_def)
  have ta: "trim (js ''a\<newline>'') = js ''a''" and tb: "trim (js ''\<newline>x'') = js ''x''"
    by (simp_all add: trim_def js_def is_space_def)
  note t = C10_toc_stop_variants_are_markers [OF w, of "js ''\<newline>x''" "js ''a\<newline>''" "[]" "[]"]
  have m: "marker_regex no_options (js ''<!-- toc'' @ [0x20, 0x9] @ js ''stop -->'' @ js ''\<newline>x'')
      = Some (length (js ''<!-- toc'' @ [0x20, 0x9] @ js ''stop -->''))"
    using t by blast
  have s: "split_sections
      (js ''a\<newline>'' @ js ''<!-- toc'' @ [0x20, 0x9] @ js ''stop -->'' @ js ''\<newline>x'')
      (marker_regex no_options) = [trim (js ''a\<newline>''), trim (js ''\<newline>x'')]"
    using t fa fb by blast
  show ?thesis
    using w fa fb m [unfolded l] s [unfolded ta tb] by simp
qed

lemma glyph_at_inside:
  assumes "k < int (glyph_length g)"
  shows "glyph_at g k = (if k < 0 then None else Some (glyph_list g ! nat k))"
proof (cases g)
  case (GlyphString c)
  show ?thesis
  proof (cases "k < 0")
    case True
    then show ?thesis by (simp add: glyph_at_def)
  next
    case False
    then have "nat k < length c"
      using assms GlyphString by (simp add: glyph_length_def)
    then show ?thesis
      using False assms GlyphString by (simp add: glyph_at_def glyph_list_def glyph_length_def)
  qed
next
  case (GlyphArray bs)
  then show ?thesis
    using assms by (simp add: glyph_at_def glyph_list_def glyph_length_def)
qed

lemma glyph_length_list: "glyph_length g = length (glyph_list g)"
  by (cases g) (simp_all add: glyph_length_def glyph_list_def)

lemma glyph_choice_inside:
  assumes "k < int (glyph_length g)"
  shows "(case glyph_at g k of None \<Rightarrow> d | Some b \<Rightarrow> if b = [] then d else b) =
     (if 0 \<le> k \<and> glyph_list g ! nat k \<noteq> [] then glyph_list g ! nat k else d)"
  by (cases "k < 0") (simp_all add: glyph_at_inside [OF assms])

lemma glyph_choice:
  "(case glyph_at g (min l (int (glyph_length g) - 1)) of
      None \<Rightarrow> d
    | Some b \<Rightarrow> if b = [] then d else b) =
   (if 0 \<le> min l (int (length (glyph_list g)) - 1)
       \<and> glyph_list g ! nat (min l (int (length (glyph_list g)) - 1)) \<noteq> []
    then glyph_list g ! nat (min l (int (length (glyph_list g)) - 1)) else d)"
proof -
  have "min l (int (glyph_length g) - 1) < int (glyph_length g)"
    by (simp add: min_less_iff_disj)
  then show ?thesis
    unfolding glyph_length_list [symmetric] by (rule glyph_choice_inside)
qed

lemma adapter_options_render:
  "titleize (adapter_options options) = titleize options"
  "maxdepth_of (adapter_options options) = maxdepth_of options"
  "o_bullets (adapter_options options) = o_bullets options"
  "o_chars (adapter_options options) = o_chars options"
  "o_indent (adapter_options options) = o_indent options"
  "o_append (adapter_options options) = o_append options"
  "o_titleize (adapter_options options) = o_titleize options"
  "(o_linkify (adapter_options options) = Some (LinkifyBool False))
     = (o_linkify options = Some (LinkifyBool False))"
  by (auto simp: adapter_options_def maxdepth_of_def titleize_def fun_eq_iff
      split: option.splits)

lemma toc_content_parse:
  "toc_content (parse rt options str) =
     generateTOCContent (adapter_options options) (json (parse rt options str))"
  by (simp add: parse_def Let_def generateJSONOutput_id)

lemma linkify_case:
  "(case o_linkify (adapter_options options) of
      Some (LinkifyBool False) \<Rightarrow> x
    | _ \<Rightarrow> y) =
   (case o_linkify options of
      Some (LinkifyBool False) \<Rightarrow> x
    | _ \<Rightarrow> y)"
  by (simp add: adapter_options_def split: option.splits linkify_option.splits bool.splits)

lemma toc_line_bullet:
  "toc_line opts hs h =
     concat (replicate (nat (lvl h - getHighestLevel hs))
        (case o_indent opts of None \<Rightarrow> js ''  '' | Some i \<Rightarrow> if i = [] then js ''  '' else i))
     @ (case glyph_at (toc_bullets opts)
               (min (lvl h - 1) (int (glyph_length (toc_bullets opts)) - 1)) of
          None \<Rightarrow> js ''-''
        | Some b \<Rightarrow> if b = [] then js ''-'' else b)
     @ (case o_linkify opts of
          Some (LinkifyBool False) \<Rightarrow> js '' '' @ content h
        | _ \<Rightarrow> js '' ['' @ (case o_titleize opts of
                              Some (TitleizeBool False) \<Rightarrow> content h
                            | _ \<Rightarrow> titleize opts (content h))
               @ js ''](#'' @ slug h @ js '')'')"
proof -
  have n: "nat (max 0 x) = nat x" for x :: int
    by simp
  show ?thesis
    unfolding toc_line_def Let_def n
    by (simp split: option.splits linkify_option.splits bool.splits)
qed

lemma toc_line_glyphs:
  "toc_line (adapter_options options) hs h =
     concat (replicate (nat (lvl h - getHighestLevel hs))
        (case o_indent options of None \<Rightarrow> js ''  '' | Some i \<Rightarrow> if i = [] then js ''  '' else i))
     @ (if 0 \<le> min (lvl h - 1) (int (length (glyph_list (toc_bullets (adapter_options options)))) - 1)
           \<and> glyph_list (toc_bullets (adapter_options options))
                ! nat (min (lvl h - 1)
                    (int (length (glyph_list (toc_bullets (adapter_options options)))) - 1)) \<noteq> []
        then glyph_list (toc_bullets (adapter_options options))
                ! nat (min (lvl h - 1)
                    (int (length (glyph_list (toc_bullets (adapter_options options)))) - 1))
        else js ''-'')
     @ (case o_linkify options of
          Some (LinkifyBool False) \<Rightarrow> js '' '' @ content h
        | _ \<Rightarrow> js '' ['' @ (case o_titleize options of
                              Some (TitleizeBool False) \<Rightarrow> content h
                            | _ \<Rightarrow> titleize options (content h))
               @ js ''](#'' @ slug h @ js '')'')"
  unfolding toc_line_bullet glyph_choice linkify_case adapter_options_render
  by (rule refl)

lemma glyph_list_bullets:
  "glyph_list (toc_bullets (adapter_options options)) =
     (case o_bullets options of
        Some (GlyphArray bs) \<Rightarrow> bs
      | _ \<Rightarrow>
          (case o_chars options of
             None \<Rightarrow> [js ''-'', js ''*'', js ''+'']
           | Some (GlyphString c) \<Rightarrow>
               if c = [] then [js ''-'', js ''*'', js ''+''] else map (\<lambda>x. [x]) c
           | Some (GlyphArray cs) \<Rightarrow> cs))"
  by (simp add: glyph_list_def toc_bullets_def default_bullets_def adapter_options_render
      split: option.splits glyphs.splits)

lemma generateTOCContent_lines:
  "generateTOCContent opts hs =
     join [0xA] (map (toc_line opts hs) (filter (\<lambda>h. lvl h \<le> maxdepth_of opts) hs)
       @ (case o_append opts of None \<Rightarrow> [] | Some a \<Rightarrow> if a = [] then [] else [a]))"
  by (simp add: generateTOCContent_def Let_def not_less split: option.splits)

text \<open>
  Claim C9: when the \<open>bullets\<close> option is a plain string and not an array, the renderer
  ignores it and takes the bullet glyphs from the \<open>chars\<close> option, or the default
  sequence \<open>-\<close>, \<open>*\<close>, \<open>+\<close>; only an array-valued \<open>bullets\<close> option is used. The rendered
  text of a parse call is the lines of the headings up to the maximum depth, and the
  appended text, joined by line feeds; the line of a heading is its indentation, its
  glyph and its entry. The glyph is the element at the level of the heading less one, or
  the last element for a deeper heading, of the list of glyphs, and \<open>-\<close> where that is
  missing or empty. With \<open>bullets\<close> a string, whatever the string, and with \<open>bullets\<close>
  absent, the list of glyphs is \<open>chars\<close> (the code units of a string that is not empty, or
  the elements of an array), else the default sequence; with \<open>bullets\<close> an array it is that
  array.
\<close>

theorem C9_string_bullets_ignored:
  "(let hs = json (parse rt options str);
        three = [js ''-'', js ''*'', js ''+''];
        from_chars = (case o_chars options of
                        None \<Rightarrow> three
                      | Some (GlyphString c) \<Rightarrow> if c = [] then three else map (\<lambda>x. [x]) c
                      | Some (GlyphArray cs) \<Rightarrow> cs);
        render = (\<lambda>glyphs.
          join [0xA]
            (map (\<lambda>h.
                concat (replicate (nat (lvl h - getHighestLevel hs))
                  (case o_indent options of
                     None \<Rightarrow> js ''  ''
                   | Some i \<Rightarrow> if i = [] then js ''  '' else i))
                @ (if 0 \<le> min (lvl h - 1) (int (length glyphs) - 1)
                      \<and> glyphs ! nat (min (lvl h - 1) (int (length glyphs) - 1)) \<noteq> []
                   then glyphs ! nat (min (lvl h - 1) (int (length glyphs) - 1))
                   else js ''-'')
                @ (case o_linkify options of
                     Some (LinkifyBool False) \<Rightarrow> js '' '' @ content h
                   | _ \<Rightarrow> js '' ['' @ (case o_titleize options of
                                         Some (TitleizeBool False) \<Rightarrow> content h
                                       | _ \<Rightarrow> titleize options (content h))
                          @ js ''](#'' @ slug h @ js '')''))
              (filter (\<lambda>h. lvl h \<le> maxdepth_of options) hs)
             @ (case o_append options of None \<Rightarrow> [] | Some a \<Rightarrow> if a = [] then [] else [a])))
    in (\<forall>s. o_bullets options = Some (GlyphString s) \<longrightarrow>
          toc_content (parse rt options str) = render from_chars) \<and>
       (o_bullets options = None \<longrightarrow>
          toc_content (parse rt options str) = render from_chars) \<and>
       (\<forall>bs. o_bullets options = Some (GlyphArray bs) \<longrightarrow>
          toc_content (parse rt options str) = render bs))"
proof -
  have l: "toc_line (adapter_options options) hs =
      (\<lambda>h. concat (replicate (nat (lvl h - getHighestLevel hs))
        (case o_indent options of None \<Rightarrow> js ''  '' | Some i \<Rightarrow> if i = [] then js ''  '' else i))
     @ (if 0 \<le> min (lvl h - 1) (int (length (glyph_list (toc_bullets (adapter_options options)))) - 1)
           \<and> glyph_list (toc_bullets (adapter_options options))
                ! nat (min (lvl h - 1)
                    (int (length (glyph_list (toc_bullets (adapter_options options)))) - 1)) \<noteq> []
        then glyph_list (toc_bullets (adapter_options options))
                ! nat (min (lvl h - 1)
                    (int (length (glyph_list (toc_bullets (adapter_options options)))) - 1))
        else js ''-'')
     @ (case o_linkify options of
          Some (LinkifyBool False) \<Rightarrow> js '' '' @ content h
        | _ \<Rightarrow> js '' ['' @ (case o_titleize options of
                              Some (TitleizeBool False) \<Rightarrow> content h
                            | _ \<Rightarrow> titleize options (content h))
               @ js ''](#'' @ slug h @ js '')''))" for hs
    by (rule ext) (rule toc_line_glyphs)
  have g1: "glyph_list (toc_bullets (adapter_options options)) =
      (case o_chars options of
         None \<Rightarrow> [js ''-'', js ''*'', js ''+'']
       | Some (GlyphString c) \<Rightarrow>
           if c = [] then [js ''-'', js ''*'', js ''+''] else map (\<lambda>x. [x]) c
       | Some (GlyphArray cs) \<Rightarrow> cs)" if "o_bullets options = Some (GlyphString s)" for s
    unfolding glyph_list_bullets using that by simp
  have g0: "glyph_list (toc_bullets (adapter_options options)) =
      (case o_chars options of
         None \<Rightarrow> [js ''-'', js ''*'', js ''+'']
       | Some (GlyphString c) \<Rightarrow>
           if c = [] then [js ''-'', js ''*'', js ''+''] else map (\<lambda>x. [x]) c
       | Some (GlyphArray cs) \<Rightarrow> cs)" if "o_bullets options = None"
    unfolding glyph_list_bullets using that by simp
  have g2: "glyph_list (toc_bullets (adapter_options options)) = bs"
    if "o_bullets options = Some (GlyphArray bs)" for bs
    unfolding glyph_list_bullets using that by simp
  show ?thesis
    unfolding Let_def toc_content_parse generateTOCContent_lines l adapter_options_render
    by (intro conjI allI impI) (simp_all only: g0 g1 g2)
qed

lemma json_A_B_bullets:
  "json (parse ascii_runtime (no_options\<lparr>o_bullets := b\<rparr>) (js ''# A\<newline>### B\<newline>'')) =
     [\<lparr>content = js ''A'', slug = js ''a'', lvl = 1, idx = 0, seen = Num 0\<rparr>,
      \<lparr>content = js ''B'', slug = js ''b'', lvl = 3, idx = 1, seen = Num 0\<rparr>]"
proof -
  let ?opts = "adapter_options (no_options\<lparr>o_bullets := b\<rparr>)"
  have l: "lexer ascii_runtime (js ''# A\<newline>### B\<newline>'') =
      [Heading 1 (js ''A'') (Some [Text (js ''A'') None]),
       Heading 3 (js ''B'') (Some [Text (js ''B'') None])]"
    by (simp add: ascii_runtime_def atx_lexer_A_B)
  have m: "0 \<le> maxdepth_of ?opts"
    by (simp add: maxdepth_of_def adapter_options_def no_options_def)
  have a: "slugify ascii_runtime ?opts (js ''A'') = js ''a''"
    by (simp add: slugify_ascii [OF host_ok_ascii_runtime] no_options_def adapter_options_def
        slug_eval)
  have b: "slugify ascii_runtime ?opts (js ''B'') = js ''b''"
    by (simp add: slugify_ascii [OF host_ok_ascii_runtime] no_options_def adapter_options_def
        slug_eval)
  have p: "processHeadings ?opts hs = hs" for hs
    by (simp add: processHeadings_def adapter_options_def no_options_def)
  show ?thesis
    unfolding json_A_B [OF l m] p a b by (rule refl)
qed

lemmas line_eval =
  getHighestLevel_def titleize_def maxdepth_of_def no_options_def re_tag_def re_run_def
  trim_def is_space_def js_def numeral_2_eq_2

theorem C9_string_bullets_ignored_witness:
  "o_bullets (no_options\<lparr>o_bullets := Some (GlyphString (js ''x''))\<rparr>)
     = Some (GlyphString (js ''x'')) \<and>
   toc_content (parse ascii_runtime (no_options\<lparr>o_bullets := Some (GlyphString (js ''x''))\<rparr>)
      (js ''# A\<newline>### B\<newline>'')) = js ''- [A](#a)\<newline>    + [B](#b)'' \<and>
   o_bullets (no_options\<lparr>o_bullets := Some (GlyphArray [js ''x'', js ''y''])\<rparr>)
     = Some (GlyphArray [js ''x'', js ''y'']) \<and>
   toc_content (parse ascii_runtime (no_options\<lparr>o_bullets := Some (GlyphArray [js ''x'', js ''y''])\<rparr>)
      (js ''# A\<newline>### B\<newline>'')) = js ''x [A](#a)\<newline>    y [B](#b)''"
proof -
  let ?S = "no_options\<lparr>o_bullets := Some (GlyphString (js ''x''))\<rparr>"
  let ?R = "no_options\<lparr>o_bullets := Some (GlyphArray [js ''x'', js ''y''])\<rparr>"
  let ?doc = "js ''# A\<newline>### B\<newline>''"
  have s: "toc_content (parse ascii_runtime ?S ?doc) = js ''- [A](#a)\<newline>    + [B](#b)''"
    using C9_string_bullets_ignored [of ascii_runtime ?S ?doc]
    unfolding Let_def json_A_B_bullets by (simp add: line_eval)
  have r: "toc_content (parse ascii_runtime ?R ?doc) = js ''x [A](#a)\<newline>    y [B](#b)''"
    using C9_string_bullets_ignored [of ascii_runtime ?R ?doc]
    unfolding Let_def json_A_B_bullets by (simp add: line_eval)
  show ?thesis
    using s r by simp
qed

lemma insert_toc_body:
  assumes "front_matter rt str = Some (body, obj)"
  shows "insert_toc rt options str =
     (if 3 < length (split_sections body (marker_regex options)) then Inl OneTocPerFile
      else Inr (case obj of
                  None \<Rightarrow> join [0xA, 0xA] (splice rt options
                            (split_sections body (marker_regex options))) @ trailing_newlines str
                | Some d \<Rightarrow> matter_stringify rt
                    (join [0xA, 0xA] (splice rt options
                       (split_sections body (marker_regex options))) @ trailing_newlines str) d))"
  using assms by (simp add: insert_toc_def Let_def)


lemma front_matter_none:
  "\<not> prefix (js ''---'') str \<Longrightarrow> front_matter rt str = Some (str, None)"
  by (simp add: front_matter_def)






lemma toc_empty: "toc_content (toc ascii_runtime no_options []) = []"
  by (simp add: toc_def parse_def Let_def ascii_runtime_def atx_lexer_def split_re_def
      re_class_def trim_def new_adapter_def processHeadings_def adapter_options_def
      no_options_def generateTOCContent_def)

lemma no_options_insert:
  "o_regex no_options = None" "o_open no_options = None" "o_close no_options = None"
  "o_toc no_options = None"
  by (simp_all add: no_options_def)

lemmas split_eval = split_sections_def split_re_def re_marker_def trim_def is_space_def js_def

lemma insert_T_first:
  "insert_toc ascii_runtime no_options (js ''# T\<newline><!-- toc -->\<newline><!-- tocstop -->\<newline>'')
     = Inr (js ''# T'' @ [0xA, 0xA] @ js ''<!-- toc -->'' @ [0xA, 0xA, 0xA, 0xA]
            @ js ''<!-- tocstop -->'' @ [0xA, 0xA, 0xA])"
proof -
  let ?doc = "js ''# T\<newline><!-- toc -->\<newline><!-- tocstop -->\<newline>''"
  have f: "front_matter ascii_runtime ?doc = Some (?doc, None)"
    by (rule front_matter_none) (simp add: js_def)
  have s: "split_sections ?doc (marker_regex no_options) = [js ''# T'', [], []]"
    by (simp add: marker_regex_def no_options_insert) (simp add: split_eval)
  have n: "trailing_newlines ?doc = [0xA]"
    by (simp add: trailing_newlines_def js_def)
  show ?thesis
    unfolding insert_toc_body [OF f] s n
    by (simp add: splice_def supplied_toc_def toc_empty open_marker_def close_marker_def
        no_options_insert)
qed

lemma insert_T_second:
  "insert_toc ascii_runtime no_options
     (js ''# T'' @ [0xA, 0xA] @ js ''<!-- toc -->'' @ [0xA, 0xA, 0xA, 0xA]
            @ js ''<!-- tocstop -->'' @ [0xA, 0xA, 0xA])
     = Inr (js ''# T'' @ [0xA, 0xA] @ js ''<!-- toc -->'' @ [0xA, 0xA, 0xA, 0xA]
            @ js ''<!-- tocstop -->'' @ [0xA, 0xA, 0xA, 0xA, 0xA])"
proof -
  let ?doc = "js ''# T'' @ [0xA, 0xA] @ js ''<!-- toc -->'' @ [0xA, 0xA, 0xA, 0xA]
            @ js ''<!-- tocstop -->'' @ [0xA, 0xA, 0xA]"
  have f: "front_matter ascii_runtime ?doc = Some (?doc, None)"
    by (rule front_matter_none) (simp add: js_def)
  have s: "split_sections ?doc (marker_regex no_options) = [js ''# T'', [], []]"
    by (simp add: marker_regex_def no_options_insert) (simp add: split_eval)
  have n: "trailing_newlines ?doc = [0xA, 0xA, 0xA]"
    by (simp add: trailing_newlines_def js_def)
  show ?thesis
    unfolding insert_toc_body [OF f] s n
    by (simp add: splice_def supplied_toc_def toc_empty open_marker_def close_marker_def
        no_options_insert)
qed


lemma sections_free:
  assumes "split_sections str re_marker = sections" and "s \<in> set sections"
  shows "\<not> has_marker s" and "\<exists>u. s = trim u"
proof -
  obtain u where u: "u \<in> set (split_re str re_marker)" "s = trim u"
    using assms by (auto simp: split_sections_def)
  show "\<not> has_marker s"
    using u split_re_segments_free not_has_marker_trim by blast
  show "\<exists>u. s = trim u"
    using u by blast
qed

text \<open>
  The text that \<open>insert\<close> returns for a document of three sections with the default
  markers, split again: the sections before and after the markers are unchanged.
\<close>

lemma split_spliced:
  assumes "\<not> has_marker (trim u)" and "\<not> has_marker t" and "\<not> has_marker (trim v)"
    and "\<forall>c \<in> set nl. c = 0xA"
  shows "split_sections
      (trim u @ [0xA, 0xA] @ (js ''<!-- toc -->'' @ [0xA, 0xA] @ t) @ [0xA, 0xA]
         @ js ''<!-- tocstop -->'' @ [0xA, 0xA] @ trim v @ nl) re_marker
     = [trim u, trim ([0xA, 0xA] @ t @ [0xA, 0xA]), trim v]"
proof -
  let ?a = "trim u @ [0xA, 0xA]"
  let ?b = "[0xA, 0xA] @ t @ [0xA, 0xA]"
  let ?c = "[0xA, 0xA] @ trim v @ nl"
  have a: "\<not> has_marker ?a"
    using assms(1) by (rule not_has_marker_append) simp
  have "\<not> has_marker (t @ [0xA, 0xA])"
    using assms(2) by (rule not_has_marker_append) simp
  then have b: "\<not> has_marker ?b"
    by (rule not_has_marker_prepend) simp
  have "0x3E \<notin> set nl"
    using assms(4) by auto
  with assms(3) have "\<not> has_marker (trim v @ nl)"
    by (rule not_has_marker_append)
  then have c: "\<not> has_marker ?c"
    by (rule not_has_marker_prepend) simp
  have e: "trim u @ [0xA, 0xA] @ (js ''<!-- toc -->'' @ [0xA, 0xA] @ t) @ [0xA, 0xA]
         @ js ''<!-- tocstop -->'' @ [0xA, 0xA] @ trim v @ nl
      = ?a @ 0x3C # js ''!-- toc -->'' @ ?b @ 0x3C # js ''!-- tocstop -->'' @ ?c"
    by (simp add: toc_marker_Cons tocstop_marker_Cons)
  have sp: "split_re (?a @ 0x3C # js ''!-- toc -->'' @ ?b @ 0x3C # js ''!-- tocstop -->'' @ ?c)
      re_marker = [?a, ?b, ?c]"
    using a b c re_marker_plain_Cons re_marker_tocstop_Cons by (rule split_re_three)
  have nn: "\<forall>c \<in> set [0xA, 0xA]. is_space c"
    by (simp add: is_space_def)
  have ws: "\<forall>c \<in> set nl. is_space c"
    using assms(4) by (auto simp: is_space_def)
  have ta: "trim ?a = trim u"
    using trim_trim_padded [of "[]" "[0xA, 0xA]" u] nn by simp
  have tc: "trim ?c = trim v"
    using trim_trim_padded [of "[0xA, 0xA]" nl v] nn ws by simp
  show ?thesis
    unfolding e split_sections_def sp using ta tc by simp
qed

text \<open>
  When text follows the closing marker, \<open>insert\<close> with the default markers returns its
  own result unchanged: for a document without front matter that splits into 3 sections,
  the last of them not empty, whose first section does not begin with \<open>---\<close> (the result
  would begin with a front-matter delimiter) and whose table of contents has no marker
  comment in it.
\<close>

lemma insert_idempotent_with_text_after_toc:
  assumes "o_regex options = None" and "o_open options = None" and "o_close options = None"
    and "\<not> prefix (js ''---'') str"
    and "split_sections str (marker_regex options) = [p, old, q]"
    and "q \<noteq> []"
    and "\<not> prefix (js ''---'') p"
    and "\<not> has_marker (supplied_toc rt options q)"
  shows "\<exists>r. insert_toc rt options str = Inr r \<and> insert_toc rt options r = Inr r"
proof -
  let ?t = "supplied_toc rt options q"
  let ?nl = "trailing_newlines str"
  let ?r = "p @ [0xA, 0xA] @ (js ''<!-- toc -->'' @ [0xA, 0xA] @ ?t) @ [0xA, 0xA]
         @ js ''<!-- tocstop -->'' @ [0xA, 0xA] @ q @ ?nl"
  have re: "marker_regex options = re_marker"
    using assms(1) by (rule marker_regex_default)
  have secs: "split_sections str re_marker = [p, old, q]"
    using assms(5) unfolding re .
  have sp: "splice rt options [p, x, q]
      = [p, (js ''<!-- toc -->'' @ [0xA, 0xA]) @ ?t, js ''<!-- tocstop -->'', q]" for x
    using assms(2,3) by (simp add: splice_def open_marker_def close_marker_def)
  have first: "insert_toc rt options str = Inr ?r"
    using assms(4) by (simp add: insert_toc_body front_matter_none assms(5) sp)
  obtain u where u: "p = trim u"
    using sections_free(2) [OF secs, of p] by auto
  obtain v where v: "q = trim v"
    using sections_free(2) [OF secs, of q] by auto
  have fp: "\<not> has_marker (trim u)"
    using sections_free(1) [OF secs, of p] u by simp
  have fq: "\<not> has_marker (trim v)"
    using sections_free(1) [OF secs, of q] v by simp
  have nl: "\<forall>c \<in> set ?nl. c = 0xA"
    by (rule trailing_newlines_all)
  have s2: "split_sections ?r re_marker = [p, trim ([0xA, 0xA] @ ?t @ [0xA, 0xA]), q]"
    using split_spliced [OF fp assms(8) fq nl] unfolding u v .
  have "\<not> prefix (js ''---'') (p @ 0xA # y)" for y
    using assms(7) prefix_append_other [of "0xA" "js ''---''" p y] by (simp add: js_def)
  then have nf: "\<not> prefix (js ''---'') ?r"
    by simp
  have "\<not> is_space (last q)"
    using trim_ends(2) [of v] assms(6) v by simp
  then have "last q \<noteq> 0xA"
    by (auto simp: is_space_def)
  then have "trailing_newlines
      ((p @ [0xA, 0xA] @ (js ''<!-- toc -->'' @ [0xA, 0xA] @ ?t) @ [0xA, 0xA]
         @ js ''<!-- tocstop -->'' @ [0xA, 0xA]) @ q @ ?nl) = ?nl"
    using assms(6) nl by (intro trailing_newlines_append)
  then have tn: "trailing_newlines ?r = ?nl"
    by simp
  have second: "insert_toc rt options ?r = Inr ?r"
    unfolding insert_toc_body [OF front_matter_none [OF nf]] re s2 tn
    by (simp add: sp)
  show ?thesis
    using first second by blast
qed


lemma slugify_B:
  assumes "host_ok rt"
  shows "slugify rt (adapter_options no_options) (js ''B'') = js ''b''"
  by (simp add: slugify_ascii [OF assms] no_options_def adapter_options_def slug_eval)

lemma atx_lexer_A_B_same_level:
  "atx_lexer (js ''## A\<newline>## B'') =
     [Heading 2 (js ''A'') (Some [Text (js ''A'') None]),
      Heading 2 (js ''B'') (Some [Text (js ''B'') None])]"
  by (simp add: atx_lexer_def split_re_def re_class_def js_def atx_token_def trim_def
      is_space_def Let_def)

lemma toc_A_B:
  "toc_content (toc ascii_runtime no_options (js ''## A\<newline>## B''))
     = js ''* [A](#a)\<newline>* [B](#b)''"
proof -
  have s1: "seen_get (track_seen Map.empty (js ''A'')) (js ''A'') = Num 0"
    by (simp add: seen_eval)
  have s2: "seen_get (track_seen (track_seen Map.empty (js ''A'')) (js ''B'')) (js ''B'') = Num 0"
    by (simp add: seen_eval)
  have m: "0 \<le> maxdepth_of (adapter_options no_options)"
    by (simp add: maxdepth_default)
  have e: "headings (extractHeadings ascii_runtime (adapter_options no_options)
      [Heading 2 (js ''A'') (Some [Text (js ''A'') None]),
       Heading 2 (js ''B'') (Some [Text (js ''B'') None])] new_adapter) =
     [\<lparr>content = js ''A'', slug = js ''a'', lvl = 2, idx = 0, seen = Num 0\<rparr>,
      \<lparr>content = js ''B'', slug = js ''b'', lvl = 2, idx = 1, seen = Num 0\<rparr>]"
    using extract_two_headings [OF m, where rt = ascii_runtime and da = 2 and db = 2
        and ta = "js ''A''" and tb = "js ''B''"]
    by (simp only: s1 s2 slugify_A [OF host_ok_ascii_runtime] slugify_B [OF host_ok_ascii_runtime])
  have l: "lexer ascii_runtime (js ''## A\<newline>## B'') =
     [Heading 2 (js ''A'') (Some [Text (js ''A'') None]),
      Heading 2 (js ''B'') (Some [Text (js ''B'') None])]"
    by (simp add: ascii_runtime_def atx_lexer_A_B_same_level)
  have g: "generateTOCContent (adapter_options no_options)
     [\<lparr>content = js ''A'', slug = js ''a'', lvl = 2, idx = 0, seen = Num 0\<rparr>,
      \<lparr>content = js ''B'', slug = js ''b'', lvl = 2, idx = 1, seen = Num 0\<rparr>]
     = js ''* [A](#a)\<newline>* [B](#b)''"
    by (simp add: render_eval)
  show ?thesis
    unfolding toc_def parse_def Let_def l e processHeadings_default g
    by simp
qed

lemma insert_idempotent_example:
  "o_regex no_options = None \<and> o_open no_options = None \<and> o_close no_options = None \<and>
   \<not> prefix (js ''---'') (js ''<!-- toc -->\<newline>\<newline><!-- tocstop -->\<newline>\<newline>## A\<newline>## B\<newline>'') \<and>
   split_sections (js ''<!-- toc -->\<newline>\<newline><!-- tocstop -->\<newline>\<newline>## A\<newline>## B\<newline>'')
       (marker_regex no_options) = [[], [], js ''## A\<newline>## B''] \<and>
   js ''## A\<newline>## B'' \<noteq> [] \<and>
   \<not> prefix (js ''---'') [] \<and>
   \<not> has_marker (supplied_toc ascii_runtime no_options (js ''## A\<newline>## B'')) \<and>
   (\<exists>r. insert_toc ascii_runtime no_options
           (js ''<!-- toc -->\<newline>\<newline><!-- tocstop -->\<newline>\<newline>## A\<newline>## B\<newline>'') = Inr r \<and>
        insert_toc ascii_runtime no_options r = Inr r)"
proof -
  let ?doc = "js ''<!-- toc -->\<newline>\<newline><!-- tocstop -->\<newline>\<newline>## A\<newline>## B\<newline>''"
  have 4: "\<not> prefix (js ''---'') ?doc"
    by (simp add: js_def)
  have 5: "split_sections ?doc (marker_regex no_options) = [[], [], js ''## A\<newline>## B'']"
    by (simp add: marker_regex_def no_options_insert) (simp add: split_eval)
  have 6: "js ''## A\<newline>## B'' \<noteq> []"
    by (simp add: js_def)
  have 7: "\<not> prefix (js ''---'') []"
    by (simp add: js_def)
  have "supplied_toc ascii_runtime no_options (js ''## A\<newline>## B'') = js ''* [A](#a)\<newline>* [B](#b)''"
    by (simp add: supplied_toc_def no_options_insert toc_A_B)
  moreover have "\<not> has_marker (js ''* [A](#a)\<newline>* [B](#b)'')"
    by (rule no_lt_no_marker) (simp add: js_def)
  ultimately have 8: "\<not> has_marker (supplied_toc ascii_runtime no_options (js ''## A\<newline>## B''))"
    by simp
  show ?thesis
    using insert_idempotent_with_text_after_toc
      [OF no_options_insert(1) no_options_insert(2) no_options_insert(3) 4 5 6 7 8]
      no_options_insert 4 5 6 7 8
    by blast
qed

text \<open>
  When the closing marker ends the document the last section is empty. The join then
  leaves two line feeds after the closing marker and the line feeds kept from the end of
  the document follow them, so the result has two more line feeds at its end than the
  document, and \<open>insert\<close> applied to the result appends another two.
\<close>

lemma newlines_commute:
  "\<forall>c \<in> set nl. c = 0xA \<Longrightarrow> nl @ [0xA, 0xA] = [0xA, 0xA] @ (nl :: jsstring)"
  by (induction nl) simp_all

lemma toc_at_end_grows:
  assumes "o_regex options = None" and "o_open options = None" and "o_close options = None"
    and "\<not> prefix (js ''---'') str"
    and "split_sections str (marker_regex options) = [p, old, []]"
    and "\<not> prefix (js ''---'') p"
    and "\<not> has_marker (supplied_toc rt options [])"
  shows "\<exists>r. insert_toc rt options str = Inr r \<and>
             trailing_newlines r = [0xA, 0xA] @ trailing_newlines str \<and>
             insert_toc rt options r = Inr (r @ [0xA, 0xA])"
proof -
  let ?t = "supplied_toc rt options []"
  let ?nl = "trailing_newlines str"
  let ?x = "p @ [0xA, 0xA] @ (js ''<!-- toc -->'' @ [0xA, 0xA] @ ?t) @ [0xA, 0xA]"
  let ?r = "p @ [0xA, 0xA] @ (js ''<!-- toc -->'' @ [0xA, 0xA] @ ?t) @ [0xA, 0xA]
         @ js ''<!-- tocstop -->'' @ [0xA, 0xA] @ [] @ ?nl"
  have re: "marker_regex options = re_marker"
    using assms(1) by (rule marker_regex_default)
  have secs: "split_sections str re_marker = [p, old, []]"
    using assms(5) unfolding re .
  have sp: "splice rt options [p, x, []]
      = [p, (js ''<!-- toc -->'' @ [0xA, 0xA]) @ ?t, js ''<!-- tocstop -->'', []]" for x
    using assms(2,3) by (simp add: splice_def open_marker_def close_marker_def)
  have first: "insert_toc rt options str = Inr ?r"
    using assms(4) by (simp add: insert_toc_body front_matter_none assms(5) sp)
  obtain u where u: "p = trim u"
    using sections_free(2) [OF secs, of p] by auto
  have fp: "\<not> has_marker (trim u)"
    using sections_free(1) [OF secs, of p] u by simp
  have t0: "trim [] = ([] :: jsstring)"
    by (simp add: trim_def)
  have fq: "\<not> has_marker (trim [])"
    unfolding t0 by simp
  have nl: "\<forall>c \<in> set ?nl. c = 0xA"
    by (rule trailing_newlines_all)
  have s2: "split_sections ?r re_marker = [p, trim ([0xA, 0xA] @ ?t @ [0xA, 0xA]), []]"
    using split_spliced [OF fp assms(7) fq nl] unfolding u t0 .
  have "\<not> prefix (js ''---'') (p @ 0xA # y)" for y
    using assms(6) prefix_append_other [of "0xA" "js ''---''" p y] by (simp add: js_def)
  then have nf: "\<not> prefix (js ''---'') ?r"
    by simp
  have nl2: "\<forall>c \<in> set ([0xA, 0xA] @ ?nl). c = 0xA"
    using nl by simp
  have m: "js ''<!-- tocstop -->'' \<noteq> []" "last (js ''<!-- tocstop -->'') \<noteq> 0xA"
    by (simp_all add: js_def)
  have "trailing_newlines (?x @ js ''<!-- tocstop -->'' @ ([0xA, 0xA] @ ?nl)) = [0xA, 0xA] @ ?nl"
    using m nl2 by (rule trailing_newlines_append)
  then have tn: "trailing_newlines ?r = [0xA, 0xA] @ ?nl"
    by simp
  have c: "?nl @ [0xA, 0xA] = [0xA, 0xA] @ ?nl"
    using nl by (rule newlines_commute)
  have "insert_toc rt options ?r = Inr (?x @ js ''<!-- tocstop -->'' @ [0xA, 0xA] @ [0xA, 0xA] @ ?nl)"
    unfolding insert_toc_body [OF front_matter_none [OF nf]] re s2 tn
    by (simp add: sp)
  also have "?x @ js ''<!-- tocstop -->'' @ [0xA, 0xA] @ [0xA, 0xA] @ ?nl = ?r @ [0xA, 0xA]"
    using c by simp
  finally have second: "insert_toc rt options ?r = Inr (?r @ [0xA, 0xA])" .
  show ?thesis
    using first tn second by blast
qed

text \<open>
  Claim C7: \<open>insert\<close> is idempotent on a document that already contains a table of
  contents between the markers: for every document that splits into exactly 3 segments,
  applying \<open>insert\<close> and then applying it again to the result yields the result
  unchanged. The code keeps the line feeds at the end of the document, under the comment
  "Preserve trailing newlines", and appends them to the joined sections. The document
  \<open># T\n<!-- toc -->\n<!-- tocstop -->\n\<close> splits into 3 sections and ends with one line
  feed; the result of \<open>insert\<close> ends with three, and \<open>insert\<close> applied to that result
  returns it with five. By \<open>toc_at_end_grows\<close> the same happens, under the default
  markers, to every document without front matter whose last section is empty, when its
  first section does not begin with \<open>---\<close> and the table of contents has no marker
  comment in it.
\<close>

theorem C7_toc_at_end_grows:
  "split_sections (js ''# T\<newline><!-- toc -->\<newline><!-- tocstop -->\<newline>'') (marker_regex no_options)
     = [js ''# T'', [], []] \<and>
   insert_toc ascii_runtime no_options (js ''# T\<newline><!-- toc -->\<newline><!-- tocstop -->\<newline>'')
     = Inr (js ''# T'' @ [0xA, 0xA] @ js ''<!-- toc -->'' @ [0xA, 0xA, 0xA, 0xA]
            @ js ''<!-- tocstop -->'' @ [0xA, 0xA, 0xA]) \<and>
   insert_toc ascii_runtime no_options
     (js ''# T'' @ [0xA, 0xA] @ js ''<!-- toc -->'' @ [0xA, 0xA, 0xA, 0xA]
            @ js ''<!-- tocstop -->'' @ [0xA, 0xA, 0xA])
     = Inr (js ''# T'' @ [0xA, 0xA] @ js ''<!-- toc -->'' @ [0xA, 0xA, 0xA, 0xA]
            @ js ''<!-- tocstop -->'' @ [0xA, 0xA, 0xA, 0xA, 0xA]) \<and>
   insert_toc ascii_runtime no_options
     (js ''# T'' @ [0xA, 0xA] @ js ''<!-- toc -->'' @ [0xA, 0xA, 0xA, 0xA]
            @ js ''<!-- tocstop -->'' @ [0xA, 0xA, 0xA])
     \<noteq> Inr (js ''# T'' @ [0xA, 0xA] @ js ''<!-- toc -->'' @ [0xA, 0xA, 0xA, 0xA]
            @ js ''<!-- tocstop -->'' @ [0xA, 0xA, 0xA])"
proof -
  have "split_sections (js ''# T\<newline><!-- toc -->\<newline><!-- tocstop -->\<newline>'')
      (marker_regex no_options) = [js ''# T'', [], []]"
    by (simp add: marker_regex_def no_options_insert) (simp add: split_eval)
  moreover have "insert_toc ascii_runtime no_options
     (js ''# T'' @ [0xA, 0xA] @ js ''<!-- toc -->'' @ [0xA, 0xA, 0xA, 0xA]
            @ js ''<!-- tocstop -->'' @ [0xA, 0xA, 0xA])
     \<noteq> Inr (js ''# T'' @ [0xA, 0xA] @ js ''<!-- toc -->'' @ [0xA, 0xA, 0xA, 0xA]
            @ js ''<!-- tocstop -->'' @ [0xA, 0xA, 0xA])"
    unfolding insert_T_second by simp
  ultimately show ?thesis
    using insert_T_first insert_T_second by blast
qed

end
